theory Spec2Isabelle
  imports Main "HOL-Library.Word"
begin

section \<open>Integer types of the target\<close>

text \<open>
  \<^verbatim>\<open>Logger.cpp\<close> stores the results of \<^verbatim>\<open>strtoul\<close> in the fields of
  \<^verbatim>\<open>BrokenDate\<close> and \<^verbatim>\<open>BrokenTime\<close>. Both structures are declared outside the
  driver, which does not fix the types of their fields, and the range of
  \<^verbatim>\<open>unsigned long\<close> depends on the target. The fields are unsigned integers here, and their widths are
  parameters of the model: a value stored in a field is reduced modulo the field's range.
\<close>

record platform =
  ulong_bits :: nat
  year_bits :: nat
  month_bits :: nat
  day_bits :: nat
  time_bits :: nat

definition narrow :: "nat \<Rightarrow> nat \<Rightarrow> nat" where
  "narrow bits v = v mod 2 ^ bits"

record BrokenDate =
  year :: nat
  month :: nat
  day :: nat

record BrokenTime =
  hour :: nat
  minute :: nat
  second :: nat

section \<open>C strings in a buffer\<close>

text \<open>
  A \<^verbatim>\<open>char *\<close> is an index into a buffer. The string it points to ends at the first
  NUL; the end of the buffer counts as that terminator (the C code would read past the
  allocation where the payload holds no NUL).
\<close>

type_synonym buffer = "char list"

definition NUL :: char where
  "NUL = CHR 0x00"

definition deref :: "buffer \<Rightarrow> nat \<Rightarrow> char" where
  "deref buf p = (if p < length buf then buf ! p else NUL)"

definition cstr :: "buffer \<Rightarrow> nat \<Rightarrow> string" where
  "cstr buf p = takeWhile (\<lambda>c. c \<noteq> NUL) (drop p buf)"

definition strlen :: "buffer \<Rightarrow> nat \<Rightarrow> nat" where
  "strlen buf p = length (cstr buf p)"

definition strchr :: "buffer \<Rightarrow> nat \<Rightarrow> char \<Rightarrow> nat option" where
  "strchr buf p c =
     (let s = cstr buf p in
      if c \<in> set s then Some (p + length (takeWhile (\<lambda>x. x \<noteq> c) s))
      else if c = NUL then Some (p + length s)
      else None)"

definition isspace :: "char \<Rightarrow> bool" where
  "isspace c = (c \<in> set [CHR '' '', CHR 0x09, CHR 0x0A, CHR 0x0B, CHR 0x0C, CHR 0x0D])"

definition isdigit :: "char \<Rightarrow> bool" where
  "isdigit c = (48 \<le> (of_char c :: nat) \<and> (of_char c :: nat) \<le> 57)"

definition digits_value :: "string \<Rightarrow> nat" where
  "digits_value ds = foldl (\<lambda>acc d. 10 * acc + (of_char d - 48)) 0 ds"

text \<open>
  \<^verbatim>\<open>strtoul(str, &endptr, 10)\<close>: white space is skipped, one sign is accepted, then
  the longest run of decimal digits is read. Without a digit the result is 0 and
  \<^verbatim>\<open>endptr\<close> is \<^verbatim>\<open>str\<close>. A value beyond \<^verbatim>\<open>ULONG_MAX\<close> gives
  \<^verbatim>\<open>ULONG_MAX\<close>; a minus sign negates in \<^verbatim>\<open>unsigned long\<close>. The result is the
  value and \<^verbatim>\<open>endptr\<close>.
\<close>

definition strtoul :: "platform \<Rightarrow> buffer \<Rightarrow> nat \<Rightarrow> nat \<times> nat" where
  "strtoul pf buf str =
     (let s = cstr buf str;
          ws = takeWhile isspace s;
          s1 = dropWhile isspace s;
          neg = (s1 \<noteq> [] \<and> hd s1 = CHR ''-'');
          sign = (if s1 \<noteq> [] \<and> (hd s1 = CHR ''-'' \<or> hd s1 = CHR ''+'') then 1 else 0);
          ds = takeWhile isdigit (drop sign s1);
          v = digits_value ds;
          ULONG_MAX = 2 ^ ulong_bits pf - 1
      in if ds = [] then (0, str)
         else (if v > ULONG_MAX then ULONG_MAX
               else if neg then narrow (ulong_bits pf) (2 ^ ulong_bits pf - v)
               else v,
               str + length ws + sign + length ds))"

section \<open>Dates and times of a record\<close>

definition ParseDate :: "platform \<Rightarrow> buffer \<Rightarrow> nat \<Rightarrow> BrokenDate \<Rightarrow> bool \<times> BrokenDate" where
  "ParseDate pf buf str date =
     (let (v, endptr) = strtoul pf buf str;
          date = date\<lparr>year := narrow (year_bits pf) v\<rparr>
      in if str = endptr \<or> deref buf endptr \<noteq> CHR ''-'' then (False, date)
         else
           let str = endptr + 1;
               (v, endptr) = strtoul pf buf str;
               date = date\<lparr>month := narrow (month_bits pf) v\<rparr>
           in if str = endptr \<or> deref buf endptr \<noteq> CHR ''-'' then (False, date)
              else
                let str = endptr + 1;
                    (v, endptr) = strtoul pf buf str;
                    date = date\<lparr>day := narrow (day_bits pf) v\<rparr>
                in (str \<noteq> endptr, date))"

definition ParseTime :: "platform \<Rightarrow> buffer \<Rightarrow> nat \<Rightarrow> BrokenTime \<Rightarrow> bool \<times> BrokenTime" where
  "ParseTime pf buf str time =
     (let (v, endptr) = strtoul pf buf str;
          time = time\<lparr>hour := narrow (time_bits pf) v\<rparr>
      in if str = endptr \<or> deref buf endptr \<noteq> CHR '':'' then (False, time)
         else
           let str = endptr + 1;
               (v, endptr) = strtoul pf buf str;
               time = time\<lparr>minute := narrow (time_bits pf) v\<rparr>
           in if str = endptr \<or> deref buf endptr \<noteq> CHR '':'' then (False, time)
              else
                let str = endptr + 1;
                    (v, endptr) = strtoul pf buf str;
                    time = time\<lparr>second := narrow (time_bits pf) v\<rparr>
                in (str \<noteq> endptr, time))"

text \<open>The two \<^verbatim>\<open>while\<close> loops of \<^verbatim>\<open>operator+\<close>.\<close>

function carry_second :: "platform \<Rightarrow> BrokenTime \<Rightarrow> BrokenTime" where
  "carry_second pf c =
     (if second c > 60
      then carry_second pf
             (c\<lparr>second := narrow (time_bits pf) (second c - 60),
                minute := narrow (time_bits pf) (minute c + 1)\<rparr>)
      else c)"
  by pat_completeness auto
termination
  by (relation "measure (\<lambda>(pf, c). second c)")
     (auto simp: narrow_def intro: le_less_trans [OF mod_less_eq_dividend])

function carry_minute :: "platform \<Rightarrow> BrokenTime \<Rightarrow> BrokenTime" where
  "carry_minute pf c =
     (if minute c > 60
      then carry_minute pf
             (c\<lparr>minute := narrow (time_bits pf) (minute c - 60),
                hour := narrow (time_bits pf) (hour c + 1)\<rparr>)
      else c)"
  by pat_completeness auto
termination
  by (relation "measure (\<lambda>(pf, c). minute c)")
     (auto simp: narrow_def intro: le_less_trans [OF mod_less_eq_dividend])

definition operator_plus :: "platform \<Rightarrow> BrokenTime \<Rightarrow> BrokenTime \<Rightarrow> BrokenTime" where
  "operator_plus pf a b =
     (let c = \<lparr>hour = narrow (time_bits pf) (hour a + hour b),
               minute = narrow (time_bits pf) (minute a + minute b),
               second = narrow (time_bits pf) (second a + second b)\<rparr>
      in carry_minute pf (carry_second pf c))"

text \<open>
  Of \<^verbatim>\<open>RecordedFlightInfo\<close> the driver touches the date, the two times and the
  record index \<^verbatim>\<open>internal.flarm\<close>, which it fills from a \<^verbatim>\<open>uint8_t\<close>.
\<close>

record RecordedFlightInfo =
  date :: BrokenDate
  start_time :: BrokenTime
  end_time :: BrokenTime
  internal_flarm :: "8 word"

section \<open>The metadata line of a record\<close>

text \<open>
  \<^verbatim>\<open>if (p == '\0') return false;\<close> compares the pointer itself, not the character
  it points to, with zero. \<^verbatim>\<open>p\<close> is one past a character that \<^verbatim>\<open>strchr\<close>
  found, so it is never the null pointer.
\<close>

definition null_pointer :: "nat \<Rightarrow> bool" where
  "null_pointer p = False"

text \<open>
  The second half of \<^verbatim>\<open>ParseRecordInfo\<close>, from the point where
  \<^verbatim>\<open>record_info\<close> is the date field and \<^verbatim>\<open>p\<close> the rest of the line. The
  local \<^verbatim>\<open>duration\<close> is not initialised in the source; \<^verbatim>\<open>ParseTime\<close> writes
  all of its fields before it is read.
\<close>

definition ParseRecordInfo_fields ::
  "platform \<Rightarrow> buffer \<Rightarrow> nat \<Rightarrow> nat \<Rightarrow> RecordedFlightInfo \<Rightarrow> bool \<times> RecordedFlightInfo" where
  "ParseRecordInfo_fields pf buf record_info p flight =
     (let (ok, d) = ParseDate pf buf record_info (date flight);
          flight = flight\<lparr>date := d\<rparr>
      in if \<not> ok then (False, flight)
         else
           let record_info = p in
           case strchr buf record_info CHR ''|'' of
             None \<Rightarrow> (False, flight)
           | Some p \<Rightarrow>
               let buf = buf[p := NUL]; p = p + 1 in
               if null_pointer p then (False, flight)
               else
                 let (ok, t) = ParseTime pf buf record_info (start_time flight);
                     flight = flight\<lparr>start_time := t\<rparr>
                 in if \<not> ok then (False, flight)
                    else
                      (let record_info = p in
                       case strchr buf record_info CHR ''|'' of
                         None \<Rightarrow> (False, flight)
                       | Some p \<Rightarrow>
                           let buf = buf[p := NUL]; p = p + 1 in
                           if null_pointer p then (False, flight)
                           else
                             let (ok, duration) =
                                   ParseTime pf buf record_info \<lparr>hour = 0, minute = 0, second = 0\<rparr>
                             in if \<not> ok then (False, flight)
                                else (True, flight\<lparr>end_time :=
                                        operator_plus pf (start_time flight) duration\<rparr>)))"

definition ParseRecordInfo ::
  "platform \<Rightarrow> buffer \<Rightarrow> nat \<Rightarrow> RecordedFlightInfo \<Rightarrow> bool \<times> RecordedFlightInfo" where
  "ParseRecordInfo pf buf record_info flight =
     (case strchr buf record_info CHR ''|'' of
        None \<Rightarrow> (False, flight)
      | Some p \<Rightarrow>
          let buf = buf[p := NUL]; p = p + 1 in
          if null_pointer p then (False, flight)
          else if strlen buf record_info > 10 then
            (let record_info = p in
             case strchr buf record_info CHR ''|'' of
               None \<Rightarrow> (False, flight)
             | Some p \<Rightarrow>
                 let buf = buf[p := NUL]; p = p + 1 in
                 if null_pointer p then (False, flight)
                 else ParseRecordInfo_fields pf buf record_info p flight)
          else ParseRecordInfo_fields pf buf record_info p flight)"

subsection \<open>The line as the specification reads it\<close>

text \<open>
  The specification splits the line at the delimiter, drops a first field of more than
  ten characters, and reads the next three fields as date, start time and duration. A
  field is read by the parser of the code, run on the field alone.
\<close>

fun split_fields :: "string \<Rightarrow> string list" where
  "split_fields [] = [[]]"
| "split_fields (c # cs) =
     (if c = CHR ''|'' then [] # split_fields cs
      else (case split_fields cs of
              f # fs \<Rightarrow> (c # f) # fs
            | [] \<Rightarrow> [[c]]))"

definition record_fields :: "string \<Rightarrow> string list" where
  "record_fields line =
     (let fs = split_fields line in if length (hd fs) > 10 then tl fs else fs)"

definition field_date :: "platform \<Rightarrow> string \<Rightarrow> BrokenDate option" where
  "field_date pf f =
     (case ParseDate pf f 0 \<lparr>year = 0, month = 0, day = 0\<rparr> of
        (True, d) \<Rightarrow> Some d
      | (False, _) \<Rightarrow> None)"

definition field_time :: "platform \<Rightarrow> string \<Rightarrow> BrokenTime option" where
  "field_time pf f =
     (case ParseTime pf f 0 \<lparr>hour = 0, minute = 0, second = 0\<rparr> of
        (True, t) \<Rightarrow> Some t
      | (False, _) \<Rightarrow> None)"

definition parse_three ::
  "platform \<Rightarrow> string list \<Rightarrow> (BrokenDate \<times> BrokenTime \<times> BrokenTime) option" where
  "parse_three pf fs =
     (case fs of
        d # s # u # _ # _ \<Rightarrow>
          (case (field_date pf d, field_time pf s, field_time pf u) of
             (Some dt, Some st, Some du) \<Rightarrow> Some (dt, st, operator_plus pf st du)
           | _ \<Rightarrow> None)
      | _ \<Rightarrow> None)"

definition positional_parse ::
  "platform \<Rightarrow> string \<Rightarrow> (BrokenDate \<times> BrokenTime \<times> BrokenTime) option" where
  "positional_parse pf line = parse_three pf (record_fields line)"

text \<open>
  The numbers of the two sample lines fit every field when \<^verbatim>\<open>unsigned long\<close> and the
  year have at least 11 bits and the other fields at least 8.
\<close>

definition wide_enough :: "platform \<Rightarrow> bool" where
  "wide_enough pf =
     (11 \<le> ulong_bits pf \<and> 11 \<le> year_bits pf \<and> 8 \<le> month_bits pf \<and>
      8 \<le> day_bits pf \<and> 8 \<le> time_bits pf)"

text \<open>What a run of the parser on a flight record has to return for a given reading.\<close>

definition returns_reading ::
  "bool \<times> RecordedFlightInfo \<Rightarrow> RecordedFlightInfo \<Rightarrow>
   (BrokenDate \<times> BrokenTime \<times> BrokenTime) option \<Rightarrow> bool" where
  "returns_reading r flight reading =
     (case reading of
        None \<Rightarrow> \<not> fst r
      | Some (d, st, en) \<Rightarrow>
          r = (True, flight\<lparr>date := d, start_time := st, end_time := en\<rparr>))"

section \<open>The device, the operation environment and the sink\<close>

text \<open>
  The driver talks to three collaborators whose code is not in \<^verbatim>\<open>Logger.cpp\<close>: the
  exchange engine of the device (\<^verbatim>\<open>SendStartByte\<close>, \<^verbatim>\<open>SendFrameHeader\<close>,
  \<^verbatim>\<open>SendEscaped\<close>, \<^verbatim>\<open>WaitForACKOrNACK\<close>), the operation environment
  (\<^verbatim>\<open>IsCancelled\<close>, \<^verbatim>\<open>SetProgressRange\<close>, \<^verbatim>\<open>SetProgressPosition\<close>) and the
  sink (\<^verbatim>\<open>BinaryWriter\<close>, \<^verbatim>\<open>File::Delete\<close>). They are parameters of the model.
  Every call is recorded in a trace. What a send or a cancellation poll returns is a
  function of the trace up to the call, so it may change at any point of a run. The
  answers of the device are a list, one entry for each wait in the order of the waits;
  a wait that finds the list empty times out.

  Only the message types that \<^verbatim>\<open>Logger.cpp\<close> names are constructors here.
  \<^verbatim>\<open>PrepareFrameHeader\<close> builds a header value and sends nothing; a header is
  identified by its message type. Every operation asserts \<^verbatim>\<open>in_binary_mode\<close>: the
  model describes calls made in binary mode.
\<close>

datatype MessageType =
    MT_ERROR | MT_ACK | MT_NACK | MT_SELECTRECORD | MT_GETRECORDINFO | MT_GETIGCDATA

type_synonym byte = "8 word"

type_synonym reply = "MessageType \<times> byte list"

datatype event =
    EvSendStartByte
  | EvSendFrameHeader MessageType nat
  | EvSendEscaped "byte list" nat
  | EvWaitForACKOrNACK nat
  | EvIsCancelled
  | EvSetProgressRange nat
  | EvSetProgressPosition nat
  | EvBinaryWriter string
  | EvWrite "byte list"
  | EvDelete string

record world =
  replies :: "reply list"
  send_ok :: "event list \<Rightarrow> bool"
  cancelled :: "event list \<Rightarrow> bool"
  writer_error :: bool
  files :: "string \<Rightarrow> byte list option"
  trace :: "event list"

definition emit :: "event \<Rightarrow> world \<Rightarrow> world" where
  "emit e w = w\<lparr>trace := trace w @ [e]\<rparr>"

definition SendStartByte :: "world \<Rightarrow> bool \<times> world" where
  "SendStartByte w = (send_ok w (trace w), emit EvSendStartByte w)"

definition SendFrameHeader :: "MessageType \<Rightarrow> nat \<Rightarrow> world \<Rightarrow> bool \<times> world" where
  "SendFrameHeader header timeout w =
     (send_ok w (trace w), emit (EvSendFrameHeader header timeout) w)"

definition SendEscaped :: "byte list \<Rightarrow> nat \<Rightarrow> world \<Rightarrow> bool \<times> world" where
  "SendEscaped data timeout w = (send_ok w (trace w), emit (EvSendEscaped data timeout) w)"

text \<open>
  \<^verbatim>\<open>WaitForACKOrNACK(sequence_number, data, length, timeout)\<close>: the answer and its
  payload. The payload is a list, and \<^verbatim>\<open>length\<close> is the length of that list.
\<close>

definition WaitForACKOrNACK_data :: "nat \<Rightarrow> world \<Rightarrow> reply \<times> world" where
  "WaitForACKOrNACK_data timeout w =
     (case replies w of
        [] \<Rightarrow> ((MT_ERROR, []), emit (EvWaitForACKOrNACK timeout) w)
      | r # rs \<Rightarrow> (r, emit (EvWaitForACKOrNACK timeout) (w\<lparr>replies := rs\<rparr>)))"

text \<open>\<^verbatim>\<open>WaitForACKOrNACK(sequence_number, timeout)\<close>: the answer without its payload.\<close>

definition WaitForACKOrNACK :: "nat \<Rightarrow> world \<Rightarrow> MessageType \<times> world" where
  "WaitForACKOrNACK timeout w =
     (let (r, w) = WaitForACKOrNACK_data timeout w in (fst r, w))"

definition IsCancelled :: "world \<Rightarrow> bool \<times> world" where
  "IsCancelled w = (cancelled w (trace w), emit EvIsCancelled w)"

definition SetProgressRange :: "nat \<Rightarrow> world \<Rightarrow> world" where
  "SetProgressRange n w = emit (EvSetProgressRange n) w"

definition SetProgressPosition :: "nat \<Rightarrow> world \<Rightarrow> world" where
  "SetProgressPosition n w = emit (EvSetProgressPosition n) w"

text \<open>
  Modelled from the spec: the Download Sink, for \<^verbatim>\<open>BinaryWriter\<close> and
  \<^verbatim>\<open>File::Delete\<close>, which \<^verbatim>\<open>Logger.cpp\<close> only calls. Opening gives a handle
  or an error; a destination opened for writing starts empty and is appended to by every
  write; deleting removes the destination. The result of \<^verbatim>\<open>BinaryWriter\<close> is
  \<^verbatim>\<open>HasError()\<close>.
\<close>

definition BinaryWriter :: "string \<Rightarrow> world \<Rightarrow> bool \<times> world" where
  "BinaryWriter path w =
     (if writer_error w then (True, emit (EvBinaryWriter path) w)
      else (False, emit (EvBinaryWriter path) (w\<lparr>files := (files w)(path \<mapsto> [])\<rparr>)))"

definition Write :: "string \<Rightarrow> byte list \<Rightarrow> world \<Rightarrow> world" where
  "Write path bytes w =
     emit (EvWrite bytes)
       (w\<lparr>files := (files w)(path \<mapsto> (case files w path of None \<Rightarrow> bytes | Some old \<Rightarrow> old @ bytes))\<rparr>)"

definition File_Delete :: "string \<Rightarrow> world \<Rightarrow> world" where
  "File_Delete path w = emit (EvDelete path) (w\<lparr>files := (files w)(path := None)\<rparr>)"

section \<open>The flight catalogue\<close>

text \<open>The cast \<^verbatim>\<open>(char *)data.begin()\<close>.\<close>

definition chars :: "byte list \<Rightarrow> buffer" where
  "chars data = map (\<lambda>b. char_of (unat b)) data"

definition ReadFlightInfo ::
  "platform \<Rightarrow> RecordedFlightInfo \<Rightarrow> world \<Rightarrow> bool \<times> RecordedFlightInfo \<times> world" where
  "ReadFlightInfo pf flight w =
     (let (sent, w) = SendStartByte w in
      if \<not> sent then (False, flight, w)
      else
        let (sent, w) = SendFrameHeader MT_GETRECORDINFO 1000 w in
        if \<not> sent then (False, flight, w)
        else
          let ((ack_result, data), w) = WaitForACKOrNACK_data 1000 w in
          if ack_result \<noteq> MT_ACK \<or> length data \<le> 2 then (False, flight, w)
          else
            let (ok, flight) = ParseRecordInfo pf (chars data) 2 flight
            in (ok, flight, w))"

definition SelectFlight :: "8 word \<Rightarrow> world \<Rightarrow> MessageType \<times> world" where
  "SelectFlight record_number w =
     (let data = [record_number];
          (sent, w) = SendStartByte w in
      if \<not> sent then (MT_ERROR, w)
      else
        let (sent, w) = SendFrameHeader MT_SELECTRECORD 1000 w in
        if \<not> sent then (MT_ERROR, w)
        else
          let (sent, w) = SendEscaped data 1000 w in
          if \<not> sent then (MT_ERROR, w)
          else WaitForACKOrNACK 1000 w)"

text \<open>
  \<^verbatim>\<open>RecordedFlightInfo flight_info;\<close> is not initialised in the source but for
  \<^verbatim>\<open>internal.flarm\<close>; the record is appended only after the parser has written the
  date and both times.
\<close>

definition new_flight_info :: "8 word \<Rightarrow> RecordedFlightInfo" where
  "new_flight_info i =
     \<lparr>date = \<lparr>year = 0, month = 0, day = 0\<rparr>,
      start_time = \<lparr>hour = 0, minute = 0, second = 0\<rparr>,
      end_time = \<lparr>hour = 0, minute = 0, second = 0\<rparr>,
      internal_flarm = i\<rparr>"

text \<open>
  One round of the \<^verbatim>\<open>for\<close> loop of \<^verbatim>\<open>ReadFlightList\<close>. \<open>Some b\<close> leaves the
  function with \<open>b\<close> (\<^verbatim>\<open>break\<close> leaves it with \<^verbatim>\<open>true\<close>); \<open>None\<close> goes on to
  \<^verbatim>\<open>++i\<close>.
\<close>

definition ReadFlightList_body ::
  "platform \<Rightarrow> 8 word \<Rightarrow> RecordedFlightInfo list \<Rightarrow> world \<Rightarrow>
   bool option \<times> RecordedFlightInfo list \<times> world" where
  "ReadFlightList_body pf i flight_list w =
     (let w = SetProgressPosition (unat i mod 10) w;
          (ack_result, w) = SelectFlight i w in
      if ack_result = MT_NACK then (Some True, flight_list, w)
      else if ack_result \<noteq> MT_ACK then (Some False, flight_list, w)
      else
        let (c, w) = IsCancelled w in
        if c then (Some False, flight_list, w)
        else
          let flight_info = new_flight_info i;
              (ok, flight_info, w) = ReadFlightInfo pf flight_info w
          in (None, if ok then flight_list @ [flight_info] else flight_list, w))"

text \<open>
  Every round that goes on has taken an answer from the device, so the loop ends when
  the device has no more answers.
\<close>

lemma replies_emit [simp]: "replies (emit e w) = replies w"
  by (simp add: emit_def)

lemma replies_wait:
  "WaitForACKOrNACK_data t w = (r, w') \<Longrightarrow>
   length (replies w') \<le> length (replies w) \<and>
   (fst r = MT_ACK \<longrightarrow> length (replies w') < length (replies w))"
  by (auto simp: WaitForACKOrNACK_data_def split: list.splits)

lemma replies_SelectFlight:
  "SelectFlight i w = (MT_ACK, w') \<Longrightarrow> length (replies w') < length (replies w)"
  by (auto simp: SelectFlight_def SendStartByte_def SendFrameHeader_def SendEscaped_def
        WaitForACKOrNACK_def Let_def
      split: if_splits prod.splits dest!: replies_wait)

lemma replies_ReadFlightInfo:
  "ReadFlightInfo pf flight w = (ok, flight', w') \<Longrightarrow> length (replies w') \<le> length (replies w)"
  by (auto simp: ReadFlightInfo_def SendStartByte_def SendFrameHeader_def Let_def
      split: if_splits prod.splits dest!: replies_wait)

lemma replies_ReadFlightList_body:
  "ReadFlightList_body pf i flight_list w = (None, flight_list', w') \<Longrightarrow>
   length (replies w') < length (replies w)"
  by (auto simp: ReadFlightList_body_def SetProgressPosition_def IsCancelled_def Let_def
      split: if_splits prod.splits dest!: replies_SelectFlight replies_ReadFlightInfo)

function ReadFlightList_loop ::
  "platform \<Rightarrow> nat \<Rightarrow> 8 word \<Rightarrow> RecordedFlightInfo list \<Rightarrow> world \<Rightarrow>
   bool \<times> RecordedFlightInfo list \<times> world" where
  "ReadFlightList_loop pf capacity i flight_list w =
     (if capacity \<le> length flight_list then (True, flight_list, w)
      else
        case ReadFlightList_body pf i flight_list w of
          (Some b, flight_list, w) \<Rightarrow> (b, flight_list, w)
        | (None, flight_list, w) \<Rightarrow> ReadFlightList_loop pf capacity (i + 1) flight_list w)"
  by pat_completeness auto
termination
  by (relation "measure (\<lambda>(pf, capacity, i, flight_list, w). length (replies w))")
     (auto dest: replies_ReadFlightList_body [OF sym])

declare ReadFlightList_loop.simps [simp del]

text \<open>
  \<^verbatim>\<open>flight_list.full()\<close> holds when the list has reached its capacity, which is a
  parameter.
\<close>

definition ReadFlightList ::
  "platform \<Rightarrow> nat \<Rightarrow> RecordedFlightInfo list \<Rightarrow> world \<Rightarrow>
   bool \<times> RecordedFlightInfo list \<times> world" where
  "ReadFlightList pf capacity flight_list w =
     (let w = SetProgressRange 10 w
      in ReadFlightList_loop pf capacity 0 flight_list w)"

section \<open>The download of a flight\<close>

text \<open>
  One round of the \<^verbatim>\<open>while (true)\<close> loop of \<^verbatim>\<open>DownloadFlight(path, env)\<close>;
  \<open>Some b\<close> leaves the function with \<open>b\<close>, \<open>None\<close> starts the next round.
\<close>

definition DownloadFlight_body :: "string \<Rightarrow> world \<Rightarrow> bool option \<times> world" where
  "DownloadFlight_body path w =
     (let (sent, w) = SendStartByte w in
      if \<not> sent then (Some False, w)
      else
        let (sent, w) = SendFrameHeader MT_GETIGCDATA 1000 w in
        if \<not> sent then (Some False, w)
        else
          let (c, w) = IsCancelled w in
          if c then (Some False, w)
          else
            let ((ack_result, data), w) = WaitForACKOrNACK_data 3000 w in
            if ack_result \<noteq> MT_ACK \<or> length data \<le> 3 then (Some False, w)
            else
              let (c, w) = IsCancelled w in
              if c then (Some False, w)
              else
                let len = length data - 3;
                    progress = data ! 2;
                    w = SetProgressPosition (min (unat progress) 100) w;
                    is_last_packet = (last data = 0x1A);
                    len = (if is_last_packet then len - 1 else len);
                    igc_data = drop 3 data;
                    w = Write path (take len igc_data) w
                in if is_last_packet then (Some True, w) else (None, w))"

lemma replies_DownloadFlight_body:
  "DownloadFlight_body path w = (None, w') \<Longrightarrow> length (replies w') < length (replies w)"
  by (auto simp: DownloadFlight_body_def SendStartByte_def SendFrameHeader_def IsCancelled_def
        SetProgressPosition_def Write_def Let_def
      split: if_splits prod.splits dest!: replies_wait)

function DownloadFlight_loop :: "string \<Rightarrow> world \<Rightarrow> bool \<times> world" where
  "DownloadFlight_loop path w =
     (case DownloadFlight_body path w of
        (Some b, w) \<Rightarrow> (b, w)
      | (None, w) \<Rightarrow> DownloadFlight_loop path w)"
  by pat_completeness auto
termination
  by (relation "measure (\<lambda>(path, w). length (replies w))")
     (auto dest: replies_DownloadFlight_body [OF sym])

declare DownloadFlight_loop.simps [simp del]

definition DownloadFlight_path :: "string \<Rightarrow> world \<Rightarrow> bool \<times> world" where
  "DownloadFlight_path path w =
     (let (has_error, w) = BinaryWriter path w in
      if has_error then (False, w)
      else
        let (c, w) = IsCancelled w in
        if c then (False, w)
        else DownloadFlight_loop path (SetProgressRange 100 w))"

definition DownloadFlight :: "RecordedFlightInfo \<Rightarrow> string \<Rightarrow> world \<Rightarrow> bool \<times> world" where
  "DownloadFlight flight path w =
     (let (ack_result, w) = SelectFlight (internal_flarm flight) w in
      if ack_result \<noteq> MT_ACK then (False, w)
      else
        let (c, w) = IsCancelled w in
        if c then (False, w)
        else
          let (ok, w) = DownloadFlight_path path w in
          if ok then (True, w) else (False, File_Delete path w))"

section \<open>Observing a run\<close>

text \<open>The events that a call appended to the trace.\<close>

definition added :: "world \<Rightarrow> world \<Rightarrow> event list" where
  "added w w' = drop (length (trace w)) (trace w')"

text \<open>The events of one complete SELECT exchange for a record.\<close>

definition select_events :: "8 word \<Rightarrow> event list" where
  "select_events i =
     [EvSendStartByte, EvSendFrameHeader MT_SELECTRECORD 1000, EvSendEscaped [i] 1000,
      EvWaitForACKOrNACK 1000]"

text \<open>The bytes handed to \<^verbatim>\<open>writer.Write\<close>, in order.\<close>

definition written :: "event list \<Rightarrow> byte list" where
  "written evs = concat (map (\<lambda>e. case e of EvWrite bytes \<Rightarrow> bytes | _ \<Rightarrow> []) evs)"

text \<open>
  The record numbers sent, in order: \<^verbatim>\<open>SendEscaped\<close> is called by
  \<^verbatim>\<open>SelectFlight\<close> only, with the record number as its one byte.
\<close>

definition selected :: "event list \<Rightarrow> 8 word list" where
  "selected evs = concat (map (\<lambda>e. case e of EvSendEscaped data t \<Rightarrow> data | _ \<Rightarrow> []) evs)"

text \<open>
  A link on which every send succeeds and an operation that is never cancelled; and a
  world with such a link, a device that gives the answers \<open>rs\<close>, and no files.
\<close>

definition undisturbed :: "world \<Rightarrow> bool" where
  "undisturbed w = ((\<forall>tr. send_ok w tr) \<and> (\<forall>tr. \<not> cancelled w tr))"

definition quiet_world :: "reply list \<Rightarrow> world" where
  "quiet_world rs =
     \<lparr>replies = rs, send_ok = (\<lambda>_. True), cancelled = (\<lambda>_. False), writer_error = False,
      files = (\<lambda>_. None), trace = []\<rparr>"

text \<open>The same world with the cancellation flag set from the start.\<close>

definition cancelled_world :: "reply list \<Rightarrow> world" where
  "cancelled_world rs = (quiet_world rs)\<lparr>cancelled := (\<lambda>_. True)\<rparr>"

text \<open>A payload made of the characters of a string, and the line of the documentation.\<close>

definition bytes :: "string \<Rightarrow> byte list" where
  "bytes s = map of_char s"

definition documented_line :: string where
  "documented_line = ''2000-11-08|20:05:21|01:21:09|J.Doe|XYZ|15M''"

text \<open>
  The events of one complete GETRECORDINFO exchange, and what
  \<^verbatim>\<open>ReadFlightInfo\<close> makes of its answer.
\<close>

definition info_events :: "event list" where
  "info_events =
     [EvSendStartByte, EvSendFrameHeader MT_GETRECORDINFO 1000, EvWaitForACKOrNACK 1000]"

definition info_result ::
  "platform \<Rightarrow> RecordedFlightInfo \<Rightarrow> reply \<Rightarrow> bool \<times> RecordedFlightInfo" where
  "info_result pf flight r =
     (if fst r \<noteq> MT_ACK \<or> length (snd r) \<le> 2 then (False, flight)
      else ParseRecordInfo pf (chars (snd r)) 2 flight)"

text \<open>
  The answers of a device that acknowledges the SELECT exchange of each of the records
  \<open>recs\<close> (a record is the payload of the acknowledgement and the answer to the
  GETRECORDINFO exchange that follows), and the list entries that the readable ones
  among these answers give, numbered from \<open>i\<close>.
\<close>

definition catalogue :: "(byte list \<times> reply) list \<Rightarrow> reply list" where
  "catalogue recs = concat (map (\<lambda>(p, info). [(MT_ACK, p), info]) recs)"

fun entries :: "platform \<Rightarrow> 8 word \<Rightarrow> reply list \<Rightarrow> RecordedFlightInfo list" where
  "entries pf i [] = []"
| "entries pf i (info # infos) =
     (if fst (info_result pf (new_flight_info i) info)
      then [snd (info_result pf (new_flight_info i) info)] else [])
     @ entries pf (i + 1) infos"

text \<open>
  What one round of the download loop writes for a payload, and the events of a round
  that writes.
\<close>

definition chunk_data :: "byte list \<Rightarrow> byte list" where
  "chunk_data d = (if last d = 0x1A then butlast (drop 3 d) else drop 3 d)"

definition chunk_events :: "byte list \<Rightarrow> event list" where
  "chunk_events d =
     [EvSendStartByte, EvSendFrameHeader MT_GETIGCDATA 1000, EvIsCancelled,
      EvWaitForACKOrNACK 3000, EvIsCancelled, EvSetProgressPosition (min (unat (d ! 2)) 100),
      EvWrite (chunk_data d)]"


text \<open>
  The rounds of \<^verbatim>\<open>ReadFlightList\<close> as they run: what the SELECT exchange of a
  round returns, whether the round reads the record (the SELECT exchange returned ACK,
  the poll found the flag clear and \<^verbatim>\<open>ReadFlightInfo\<close> succeeded), and the list of
  these two observations for all the rounds of the loop, in order.
\<close>

definition round_answer :: "8 word \<Rightarrow> world \<Rightarrow> MessageType" where
  "round_answer i w = fst (SelectFlight i (SetProgressPosition (unat i mod 10) w))"

definition round_readable :: "platform \<Rightarrow> 8 word \<Rightarrow> world \<Rightarrow> bool" where
  "round_readable pf i w =
     (let (ack_result, w) = SelectFlight i (SetProgressPosition (unat i mod 10) w) in
      ack_result = MT_ACK \<and>
      (let (c, w) = IsCancelled w in
       \<not> c \<and> fst (ReadFlightInfo pf (new_flight_info i) w)))"

function rounds ::
  "platform \<Rightarrow> nat \<Rightarrow> 8 word \<Rightarrow> RecordedFlightInfo list \<Rightarrow> world \<Rightarrow> (MessageType \<times> bool) list" where
  "rounds pf capacity i flight_list w =
     (if capacity \<le> length flight_list then []
      else
        (round_answer i w, round_readable pf i w) #
        (case ReadFlightList_body pf i flight_list w of
           (Some b, flight_list, w) \<Rightarrow> []
         | (None, flight_list, w) \<Rightarrow> rounds pf capacity (i + 1) flight_list w))"
  by pat_completeness auto
termination
  by (relation "measure (\<lambda>(pf, capacity, i, flight_list, w). length (replies w))")
     (auto dest: replies_ReadFlightList_body [OF sym])

declare rounds.simps [simp del]

definition catalogue_rounds :: "platform \<Rightarrow> nat \<Rightarrow> world \<Rightarrow> (MessageType \<times> bool) list" where
  "catalogue_rounds pf capacity w = rounds pf capacity 0 [] (SetProgressRange 10 w)"

text \<open>A link on which the send that follows a poll fails, and all other sends succeed.\<close>

definition lossy_world :: "reply list \<Rightarrow> world" where
  "lossy_world rs =
     (quiet_world rs)\<lparr>send_ok := (\<lambda>evs. evs = [] \<or> last evs \<noteq> EvIsCancelled)\<rparr>"

text \<open>
  The cancellation flag as a call sees it: \<open>flag_during w evs\<close> is what a poll returns
  after the call, started in \<open>w\<close>, has done \<open>evs\<close>. For the events \<open>evs\<close> done so
  far and such a flag \<open>c\<close>: the last event was a poll that found the flag clear; the
  last event was a poll that found the flag set; and, leaving aside the progress reports
  and writes at the end, the last event was a poll that found the flag clear, so that
  nothing has been sent or awaited since.
\<close>

fun progress_or_write :: "event \<Rightarrow> bool" where
  "progress_or_write (EvSetProgressRange n) = True"
| "progress_or_write (EvSetProgressPosition n) = True"
| "progress_or_write (EvWrite bs) = True"
| "progress_or_write _ = False"

definition flag_during :: "world \<Rightarrow> event list \<Rightarrow> bool" where
  "flag_during w evs = cancelled w (trace w @ evs)"

definition polled_clear :: "(event list \<Rightarrow> bool) \<Rightarrow> event list \<Rightarrow> bool" where
  "polled_clear c evs = (evs \<noteq> [] \<and> last evs = EvIsCancelled \<and> \<not> c (butlast evs))"

definition polled_set :: "(event list \<Rightarrow> bool) \<Rightarrow> event list \<Rightarrow> bool" where
  "polled_set c evs = (evs \<noteq> [] \<and> last evs = EvIsCancelled \<and> c (butlast evs))"

definition guarded :: "(event list \<Rightarrow> bool) \<Rightarrow> event list \<Rightarrow> bool" where
  "guarded c evs = polled_clear c (rev (dropWhile progress_or_write (rev evs)))"

text \<open>Every event of a run satisfies \<open>P\<close> together with the events before it.\<close>

fun each_event :: "(event list \<Rightarrow> event \<Rightarrow> bool) \<Rightarrow> event list \<Rightarrow> event list \<Rightarrow> bool" where
  "each_event P before [] = True"
| "each_event P before (e # evs) = (P before e \<and> each_event P (before @ [e]) evs)"

text \<open>
  A download that checks the flag before each request: nothing is done after a poll that
  found the flag set, a request is begun (its start byte is sent) only when guarded by a
  poll that found the flag clear, and an answer is awaited only directly after such a
  poll.
\<close>

definition download_poll :: "(event list \<Rightarrow> bool) \<Rightarrow> event list \<Rightarrow> event \<Rightarrow> bool" where
  "download_poll c before e =
     (\<not> polled_set c before \<and>
      (case e of
         EvSendStartByte \<Rightarrow> guarded c before
       | EvWaitForACKOrNACK t \<Rightarrow> polled_clear c before
       | _ \<Rightarrow> True))"

text \<open>
  An enumeration that checks the flag after each SELECT exchange: nothing is done after a
  poll that found the flag set, the flag is polled only directly after a complete SELECT
  exchange, and a header is either that of a GETRECORDINFO request, after a start byte
  sent directly after a poll that found the flag clear, or that of a SELECT request, after
  a start byte sent unguarded.
\<close>

definition after_select :: "event list \<Rightarrow> bool" where
  "after_select evs =
     (selected evs \<noteq> [] \<and> drop (length evs - 4) evs = select_events (last (selected evs)))"

definition catalogue_poll :: "(event list \<Rightarrow> bool) \<Rightarrow> event list \<Rightarrow> event \<Rightarrow> bool" where
  "catalogue_poll c before e =
     (\<not> polled_set c before \<and>
      (case e of
         EvIsCancelled \<Rightarrow> after_select before
       | EvSendFrameHeader h t \<Rightarrow>
           before \<noteq> [] \<and> last before = EvSendStartByte \<and>
           (if h = MT_GETRECORDINFO then polled_clear c (butlast before)
            else h = MT_SELECTRECORD \<and> \<not> guarded c (butlast before))
       | _ \<Rightarrow> True))"

text \<open>A world in which cancellation is requested once the bytes 65, 66 have been written.\<close>

definition stopped_world :: "reply list \<Rightarrow> world" where
  "stopped_world rs = (quiet_world rs)\<lparr>cancelled := (\<lambda>evs. EvWrite [65, 66] \<in> set evs)\<rparr>"

section \<open>The parser reads the line field by field\<close>

text \<open>
  What the parsers do with a pointer depends only on the string it points to, not on
  where that string lies in the buffer.
\<close>

lemma takeWhile_drop_within:
  "n \<le> length (takeWhile P xs) \<Longrightarrow> takeWhile P (drop n xs) = drop n (takeWhile P xs)"
proof (induction xs arbitrary: n)
  case Nil
  then show ?case by simp
next
  case (Cons x xs)
  then show ?case by (cases n) (auto split: if_splits)
qed

lemma cstr_add: "n \<le> strlen buf p \<Longrightarrow> cstr buf (p + n) = drop n (cstr buf p)"
  unfolding cstr_def strlen_def
  using takeWhile_drop_within [of n "\<lambda>c. c \<noteq> NUL" "drop p buf"]
  by (simp add: add.commute)

lemma cstr_no_NUL: "NUL \<notin> set (cstr buf p)"
  unfolding cstr_def by (auto dest: set_takeWhileD)

lemma cstr_self: "NUL \<notin> set s \<Longrightarrow> cstr s 0 = s"
  unfolding cstr_def by auto

lemma cstr_cstr: "cstr (cstr buf p) 0 = cstr buf p"
  by (rule cstr_self [OF cstr_no_NUL])

lemma deref_end: "deref buf (p + strlen buf p) = NUL"
proof (cases "p + strlen buf p < length buf")
  case True
  let ?t = "drop p buf"
  have "length (takeWhile (\<lambda>c. c \<noteq> NUL) ?t) < length ?t"
    using True by (simp add: strlen_def cstr_def)
  then have "\<not> (?t ! length (takeWhile (\<lambda>c. c \<noteq> NUL) ?t) \<noteq> NUL)"
    by (rule nth_length_takeWhile)
  then show ?thesis using True by (simp add: deref_def strlen_def cstr_def)
next
  case False
  then show ?thesis by (simp add: deref_def)
qed

lemma deref_within: "n < strlen buf p \<Longrightarrow> deref buf (p + n) = cstr buf p ! n"
proof -
  assume n: "n < strlen buf p"
  let ?t = "drop p buf"
  have le: "length (takeWhile (\<lambda>c. c \<noteq> NUL) ?t) \<le> length ?t"
    by (rule length_takeWhile_le)
  have "takeWhile (\<lambda>c. c \<noteq> NUL) ?t ! n = ?t ! n"
    using n by (simp add: takeWhile_nth strlen_def cstr_def)
  moreover have "p + n < length buf"
    using n le by (simp add: strlen_def cstr_def)
  ultimately show ?thesis by (simp add: deref_def cstr_def)
qed

lemma deref_not_NUL: "n \<le> strlen buf p \<Longrightarrow> deref buf (p + n) \<noteq> NUL \<Longrightarrow> n < strlen buf p"
  using deref_end [of buf p] by (cases "n = strlen buf p") auto

lemma deref_cstr_eq:
  assumes "cstr buf p = cstr buf' p'" and "n \<le> strlen buf p"
  shows "deref buf (p + n) = deref buf' (p' + n)"
proof (cases "n = strlen buf p")
  case True
  then have "n = strlen buf' p'" using assms by (simp add: strlen_def)
  with True show ?thesis using deref_end [of buf p] deref_end [of buf' p'] by simp
next
  case False
  then have "n < strlen buf p" "n < strlen buf' p'" using assms by (simp_all add: strlen_def)
  then show ?thesis using assms by (simp add: deref_within)
qed

lemma strtoul_rel:
  assumes "cstr buf p = cstr buf' p'"
  shows "\<exists>v k. strtoul pf buf p = (v, p + k) \<and> strtoul pf buf' p' = (v, p' + k) \<and> k \<le> strlen buf p"
proof -
  let ?s = "cstr buf p"
  let ?s1 = "dropWhile isspace ?s"
  let ?sign = "if ?s1 \<noteq> [] \<and> (hd ?s1 = CHR ''-'' \<or> hd ?s1 = CHR ''+'') then 1 else (0::nat)"
  let ?ds = "takeWhile isdigit (drop ?sign ?s1)"
  have "length ?ds \<le> length ?s1 - ?sign"
    using length_takeWhile_le [of isdigit "drop ?sign ?s1"] by simp
  moreover have "?sign \<le> length ?s1" by (cases ?s1) auto
  moreover have "length (takeWhile isspace ?s) + length ?s1 = length ?s"
    using takeWhile_dropWhile_id [of isspace ?s] by (metis length_append)
  ultimately have "length (takeWhile isspace ?s) + ?sign + length ?ds \<le> strlen buf p"
    unfolding strlen_def by linarith
  then show ?thesis
    using assms by (auto simp: strtoul_def Let_def simp flip: add.assoc)
qed

lemma strtoul_step:
  assumes "cstr buf p = cstr buf' p'"
  shows "\<exists>v k. strtoul pf buf p = (v, p + k) \<and> strtoul pf buf' p' = (v, p' + k)
    \<and> deref buf (p + k) = deref buf' (p' + k)
    \<and> (deref buf (p + k) \<noteq> NUL \<longrightarrow> cstr buf (p + k + 1) = cstr buf' (p' + k + 1))"
proof -
  from strtoul_rel [OF assms, of pf] obtain v k where
    a: "strtoul pf buf p = (v, p + k)" and b: "strtoul pf buf' p' = (v, p' + k)"
    and k: "k \<le> strlen buf p" by blast
  have c: "deref buf (p + k) = deref buf' (p' + k)"
    by (rule deref_cstr_eq [OF assms k])
  have d: "cstr buf (p + k + 1) = cstr buf' (p' + k + 1)" if "deref buf (p + k) \<noteq> NUL"
  proof -
    have "k < strlen buf p" by (rule deref_not_NUL [OF k that])
    then have "k + 1 \<le> strlen buf p" "k + 1 \<le> strlen buf' p'"
      using assms by (simp_all add: strlen_def)
    then show ?thesis
      using cstr_add [of "k + 1" buf p] cstr_add [of "k + 1" buf' p'] assms
      by (simp add: add.assoc)
  qed
  show ?thesis using a b c d by blast
qed

lemma NUL_neq [simp]: "CHR ''-'' \<noteq> NUL" "CHR '':'' \<noteq> NUL" "CHR ''|'' \<noteq> NUL"
  "NUL \<noteq> CHR ''-''" "NUL \<noteq> CHR '':''" "NUL \<noteq> CHR ''|''"
  by (simp_all add: NUL_def)

lemma ParseDate_cstr:
  assumes "cstr buf p = cstr buf' p'"
  shows "ParseDate pf buf p d = ParseDate pf buf' p' d"
proof -
  from strtoul_step [OF assms, of pf] obtain v1 k1 where
    s1: "strtoul pf buf p = (v1, p + k1)" "strtoul pf buf' p' = (v1, p' + k1)"
    and d1: "deref buf (p + k1) = deref buf' (p' + k1)"
    and c1: "deref buf (p + k1) \<noteq> NUL \<longrightarrow> cstr buf (p + k1 + 1) = cstr buf' (p' + k1 + 1)"
    by blast
  show ?thesis
  proof (cases "k1 = 0 \<or> deref buf (p + k1) \<noteq> CHR ''-''")
    case True
    then show ?thesis using s1 d1 by (auto simp: ParseDate_def)
  next
    case False
    then have "deref buf (p + k1) \<noteq> NUL" by auto
    with c1 have "cstr buf (p + k1 + 1) = cstr buf' (p' + k1 + 1)" by blast
    from strtoul_step [OF this, of pf] obtain v2 k2 where
      s2: "strtoul pf buf (p + k1 + 1) = (v2, p + k1 + 1 + k2)"
          "strtoul pf buf' (p' + k1 + 1) = (v2, p' + k1 + 1 + k2)"
      and d2: "deref buf (p + k1 + 1 + k2) = deref buf' (p' + k1 + 1 + k2)"
      and c2: "deref buf (p + k1 + 1 + k2) \<noteq> NUL \<longrightarrow>
               cstr buf (p + k1 + 1 + k2 + 1) = cstr buf' (p' + k1 + 1 + k2 + 1)"
      by blast
    show ?thesis
    proof (cases "k2 = 0 \<or> deref buf (p + k1 + 1 + k2) \<noteq> CHR ''-''")
      case True
      then show ?thesis using False s1 d1 s2 d2 by (auto simp: ParseDate_def)
    next
      case F2: False
      then have "deref buf (p + k1 + 1 + k2) \<noteq> NUL" by auto
      with c2 have "cstr buf (p + k1 + 1 + k2 + 1) = cstr buf' (p' + k1 + 1 + k2 + 1)" by blast
      from strtoul_step [OF this, of pf] obtain v3 k3 where
        s3: "strtoul pf buf (p + k1 + 1 + k2 + 1) = (v3, p + k1 + 1 + k2 + 1 + k3)"
            "strtoul pf buf' (p' + k1 + 1 + k2 + 1) = (v3, p' + k1 + 1 + k2 + 1 + k3)"
        by blast
      show ?thesis using False F2 s1 d1 s2 d2 s3 by (simp add: ParseDate_def)
    qed
  qed
qed

lemma ParseTime_cstr:
  assumes "cstr buf p = cstr buf' p'"
  shows "ParseTime pf buf p d = ParseTime pf buf' p' d"
proof -
  from strtoul_step [OF assms, of pf] obtain v1 k1 where
    s1: "strtoul pf buf p = (v1, p + k1)" "strtoul pf buf' p' = (v1, p' + k1)"
    and d1: "deref buf (p + k1) = deref buf' (p' + k1)"
    and c1: "deref buf (p + k1) \<noteq> NUL \<longrightarrow> cstr buf (p + k1 + 1) = cstr buf' (p' + k1 + 1)"
    by blast
  show ?thesis
  proof (cases "k1 = 0 \<or> deref buf (p + k1) \<noteq> CHR '':''")
    case True
    then show ?thesis using s1 d1 by (auto simp: ParseTime_def)
  next
    case False
    then have "deref buf (p + k1) \<noteq> NUL" by auto
    with c1 have "cstr buf (p + k1 + 1) = cstr buf' (p' + k1 + 1)" by blast
    from strtoul_step [OF this, of pf] obtain v2 k2 where
      s2: "strtoul pf buf (p + k1 + 1) = (v2, p + k1 + 1 + k2)"
          "strtoul pf buf' (p' + k1 + 1) = (v2, p' + k1 + 1 + k2)"
      and d2: "deref buf (p + k1 + 1 + k2) = deref buf' (p' + k1 + 1 + k2)"
      and c2: "deref buf (p + k1 + 1 + k2) \<noteq> NUL \<longrightarrow>
               cstr buf (p + k1 + 1 + k2 + 1) = cstr buf' (p' + k1 + 1 + k2 + 1)"
      by blast
    show ?thesis
    proof (cases "k2 = 0 \<or> deref buf (p + k1 + 1 + k2) \<noteq> CHR '':''")
      case True
      then show ?thesis using False s1 d1 s2 d2 by (auto simp: ParseTime_def)
    next
      case F2: False
      then have "deref buf (p + k1 + 1 + k2) \<noteq> NUL" by auto
      with c2 have "cstr buf (p + k1 + 1 + k2 + 1) = cstr buf' (p' + k1 + 1 + k2 + 1)" by blast
      from strtoul_step [OF this, of pf] obtain v3 k3 where
        s3: "strtoul pf buf (p + k1 + 1 + k2 + 1) = (v3, p + k1 + 1 + k2 + 1 + k3)"
            "strtoul pf buf' (p' + k1 + 1 + k2 + 1) = (v3, p' + k1 + 1 + k2 + 1 + k3)"
        by blast
      show ?thesis using False F2 s1 d1 s2 d2 s3 by (simp add: ParseTime_def)
    qed
  qed
qed

lemma ParseDate_init:
  "fst (ParseDate pf b p d) = fst (ParseDate pf b p d') \<and>
   (fst (ParseDate pf b p d) \<longrightarrow> snd (ParseDate pf b p d) = snd (ParseDate pf b p d'))"
  by (cases d; cases d') (simp add: ParseDate_def Let_def split: prod.splits)

lemma ParseTime_init:
  "fst (ParseTime pf b p d) = fst (ParseTime pf b p d') \<and>
   (fst (ParseTime pf b p d) \<longrightarrow> snd (ParseTime pf b p d) = snd (ParseTime pf b p d'))"
  by (cases d; cases d') (simp add: ParseTime_def Let_def split: prod.splits)

lemma field_date_eq:
  assumes "ParseDate pf buf p d = (ok, d1)"
  shows "field_date pf (cstr buf p) = (if ok then Some d1 else None)"
proof -
  let ?z = "\<lparr>year = 0, month = 0, day = 0\<rparr>"
  have "ParseDate pf (cstr buf p) 0 ?z = ParseDate pf buf p ?z"
    by (rule ParseDate_cstr) (rule cstr_cstr)
  then show ?thesis
    using ParseDate_init [of pf buf p ?z d] assms
    by (cases "ParseDate pf buf p ?z") (auto simp: field_date_def)
qed

lemma field_time_eq:
  assumes "ParseTime pf buf p d = (ok, d1)"
  shows "field_time pf (cstr buf p) = (if ok then Some d1 else None)"
proof -
  let ?z = "\<lparr>hour = 0, minute = 0, second = 0\<rparr>"
  have "ParseTime pf (cstr buf p) 0 ?z = ParseTime pf buf p ?z"
    by (rule ParseTime_cstr) (rule cstr_cstr)
  then show ?thesis
    using ParseTime_init [of pf buf p ?z d] assms
    by (cases "ParseTime pf buf p ?z") (auto simp: field_time_def)
qed

text \<open>Finding a delimiter and ending the field in place.\<close>

abbreviation notbar :: "char \<Rightarrow> bool" where
  "notbar \<equiv> (\<lambda>x. x \<noteq> CHR ''|'')"

lemma strchr_None: "strchr buf r CHR ''|'' = None \<longleftrightarrow> CHR ''|'' \<notin> set (cstr buf r)"
  by (simp add: strchr_def Let_def)

lemma strchr_Some:
  "strchr buf r CHR ''|'' = Some q \<Longrightarrow>
   CHR ''|'' \<in> set (cstr buf r) \<and> q = r + length (takeWhile notbar (cstr buf r))"
  by (auto simp: strchr_def Let_def split: if_splits)

lemma takeWhile_update:
  "k < length (takeWhile P t) \<Longrightarrow> \<not> P x \<Longrightarrow> takeWhile P (t[k := x]) = take k t"
proof (induction t arbitrary: k)
  case Nil
  then show ?case by simp
next
  case (Cons a t)
  then show ?case by (cases k) (auto split: if_splits)
qed

lemma take_takeWhile_within:
  "k \<le> length (takeWhile P t) \<Longrightarrow> take k (takeWhile P t) = take k t"
proof (induction t arbitrary: k)
  case Nil
  then show ?case by simp
next
  case (Cons a t)
  then show ?case by (cases k) (auto split: if_splits)
qed

lemma length_takeWhile_less:
  "c \<in> set s \<Longrightarrow> length (takeWhile (\<lambda>x. x \<noteq> c) s) < length s"
  by (induction s) auto

lemma terminate_field:
  assumes "CHR ''|'' \<in> set (cstr buf r)"
  defines "k \<equiv> length (takeWhile notbar (cstr buf r))"
  shows "cstr (buf[r + k := NUL]) r = takeWhile notbar (cstr buf r)"
    and "cstr (buf[r + k := NUL]) (r + k + 1) = drop (Suc k) (cstr buf r)"
proof -
  let ?s = "cstr buf r"
  let ?t = "drop r buf"
  have k: "k < length ?s" unfolding k_def by (rule length_takeWhile_less [OF assms(1)])
  then have k': "k < length (takeWhile (\<lambda>c. c \<noteq> NUL) ?t)" by (simp add: cstr_def)
  have "cstr (buf[r + k := NUL]) r = takeWhile (\<lambda>c. c \<noteq> NUL) (?t[k := NUL])"
    by (simp add: cstr_def drop_update_swap)
  also have "\<dots> = take k ?t" using k' by (rule takeWhile_update) simp
  also have "\<dots> = take k ?s"
    using k' take_takeWhile_within [of k "\<lambda>c. c \<noteq> NUL" ?t] by (simp add: cstr_def)
  also have "\<dots> = takeWhile notbar ?s"
    unfolding k_def by (rule takeWhile_eq_take [symmetric])
  finally show "cstr (buf[r + k := NUL]) r = takeWhile notbar ?s" .
  have "cstr (buf[r + k := NUL]) (r + k + 1) = cstr buf (r + (k + 1))"
    by (simp add: cstr_def)
  also have "\<dots> = drop (k + 1) ?s"
    using k by (intro cstr_add) (simp add: strlen_def)
  finally show "cstr (buf[r + k := NUL]) (r + k + 1) = drop (Suc k) ?s" by simp
qed

lemma split_fields_nobar: "CHR ''|'' \<notin> set s \<Longrightarrow> split_fields s = [s]"
  by (induction s) auto

lemma split_fields_bar:
  "CHR ''|'' \<in> set s \<Longrightarrow>
   split_fields s = takeWhile notbar s # split_fields (drop (Suc (length (takeWhile notbar s))) s)"
  by (induction s) (auto simp: split_fields_nobar split: list.splits)

lemma split_fields_nonempty: "\<exists>x xs. split_fields s = x # xs"
  by (induction s) (auto split: list.splits)

lemma next_field_None:
  "strchr buf r CHR ''|'' = None \<Longrightarrow> split_fields (cstr buf r) = [cstr buf r]"
  by (simp add: strchr_None split_fields_nobar)

lemma next_field_Some:
  assumes "strchr buf r CHR ''|'' = Some q"
  shows "split_fields (cstr buf r) =
         cstr (buf[q := NUL]) r # split_fields (cstr (buf[q := NUL]) (q + 1))"
proof -
  from strchr_Some [OF assms] have bar: "CHR ''|'' \<in> set (cstr buf r)"
    and q: "q = r + length (takeWhile notbar (cstr buf r))" by simp_all
  show ?thesis
    using terminate_field [OF bar] split_fields_bar [OF bar] q by simp
qed

lemma parse_three_short [simp]:
  "parse_three pf [] = None" "parse_three pf [a] = None" "parse_three pf [a, b] = None"
  "parse_three pf [a, b, c] = None"
  by (simp_all add: parse_three_def)

lemma parse_three_long [simp]:
  "parse_three pf (d # s # u # x # xs) =
     (case (field_date pf d, field_time pf s, field_time pf u) of
        (Some dt, Some st, Some du) \<Rightarrow> Some (dt, st, operator_plus pf st du)
      | _ \<Rightarrow> None)"
  by (simp add: parse_three_def)

lemma parse_three_no_date:
  "field_date pf d = None \<Longrightarrow> parse_three pf (d # fs) = None"
  by (simp add: parse_three_def split: list.splits)

lemma parse_three_no_start:
  "field_time pf s = None \<Longrightarrow> parse_three pf (d # s # fs) = None"
  by (simp add: parse_three_def split: list.splits option.splits)

lemma ParseRecordInfo_fields_reading:
  "returns_reading (ParseRecordInfo_fields pf buf ri p flight) flight
     (parse_three pf (cstr buf ri # split_fields (cstr buf p)))"
proof -
  obtain ok1 d where pd: "ParseDate pf buf ri (date flight) = (ok1, d)" by fastforce
  note fd = field_date_eq [OF pd]
  show ?thesis
  proof (cases ok1)
    case False
    then show ?thesis
      using pd fd by (simp add: ParseRecordInfo_fields_def returns_reading_def parse_three_no_date)
  next
    case ok1: True
    show ?thesis
    proof (cases "strchr buf p CHR ''|''")
      case None
      then show ?thesis
        using pd ok1 next_field_None [OF None]
        by (simp add: ParseRecordInfo_fields_def returns_reading_def)
    next
      case (Some q1)
      let ?b1 = "buf[q1 := NUL]"
      note sf1 = next_field_Some [OF Some]
      obtain ok2 t where pt: "ParseTime pf ?b1 p (start_time flight) = (ok2, t)" by fastforce
      note ft = field_time_eq [OF pt]
      show ?thesis
      proof (cases ok2)
        case False
        then show ?thesis
          using pd ok1 Some pt ft sf1
          by (simp add: ParseRecordInfo_fields_def returns_reading_def null_pointer_def
                parse_three_no_start)
      next
        case ok2: True
        show ?thesis
        proof (cases "strchr ?b1 (q1 + 1) CHR ''|''")
          case None
          then show ?thesis
            using pd ok1 Some pt ok2 sf1 next_field_None [OF None]
            by (simp add: ParseRecordInfo_fields_def returns_reading_def null_pointer_def)
        next
          case S2: (Some q2)
          let ?b2 = "?b1[q2 := NUL]"
          note sf2 = next_field_Some [OF S2]
          obtain x xs where rest: "split_fields (cstr ?b2 (q2 + 1)) = x # xs"
            using split_fields_nonempty by blast
          obtain ok3 du where
            pu: "ParseTime pf ?b2 (q1 + 1) \<lparr>hour = 0, minute = 0, second = 0\<rparr> = (ok3, du)"
            by fastforce
          note fu = field_time_eq [OF pu]
          show ?thesis
            using pd ok1 Some pt ok2 S2 pu fd ft fu sf1 sf2 rest
            by (simp add: ParseRecordInfo_fields_def returns_reading_def null_pointer_def)
        qed
      qed
    qed
  qed
qed

lemma ParseRecordInfo_reading:
  "returns_reading (ParseRecordInfo pf buf record_info flight) flight
     (positional_parse pf (cstr buf record_info))"
proof (cases "strchr buf record_info CHR ''|''")
  case None
  then show ?thesis
    using next_field_None [OF None]
    by (simp add: ParseRecordInfo_def returns_reading_def positional_parse_def record_fields_def Let_def)
next
  case (Some q0)
  let ?b0 = "buf[q0 := NUL]"
  note sf0 = next_field_Some [OF Some]
  show ?thesis
  proof (cases "strlen ?b0 record_info > 10")
    case False
    then show ?thesis
      using Some sf0 ParseRecordInfo_fields_reading [of pf ?b0 record_info "q0 + 1" flight]
      by (simp add: ParseRecordInfo_def positional_parse_def record_fields_def Let_def
            null_pointer_def strlen_def)
  next
    case True
    show ?thesis
    proof (cases "strchr ?b0 (q0 + 1) CHR ''|''")
      case None
      then show ?thesis
        using Some True sf0 next_field_None [OF None]
        by (simp add: ParseRecordInfo_def positional_parse_def record_fields_def Let_def
              null_pointer_def strlen_def returns_reading_def)
    next
      case S1: (Some q1)
      then show ?thesis
        using Some True sf0 next_field_Some [OF S1]
          ParseRecordInfo_fields_reading [of pf "?b0[q1 := NUL]" "q0 + 1" "q1 + 1" flight]
        by (simp add: ParseRecordInfo_def positional_parse_def record_fields_def Let_def
              null_pointer_def strlen_def)
    qed
  qed
qed

section \<open>The two sample lines\<close>

lemma pow_ge_11: "11 \<le> b \<Longrightarrow> v < 2048 \<Longrightarrow> v < (2::nat) ^ b"
proof -
  assume b: "11 \<le> b" and v: "v < 2048"
  have "(2::nat) ^ 11 \<le> 2 ^ b" using b by (rule power_increasing) simp
  then show ?thesis using v by simp
qed

lemma pow_ge_8: "8 \<le> b \<Longrightarrow> v < 256 \<Longrightarrow> v < (2::nat) ^ b"
proof -
  assume b: "8 \<le> b" and v: "v < 256"
  have "(2::nat) ^ 8 \<le> 2 ^ b" using b by (rule power_increasing) simp
  then show ?thesis using v by simp
qed

lemma narrow_11: "11 \<le> b \<Longrightarrow> v < 2048 \<Longrightarrow> narrow b v = v"
  by (simp add: narrow_def pow_ge_11)

lemma narrow_8: "8 \<le> b \<Longrightarrow> v < 256 \<Longrightarrow> narrow b v = v"
  by (simp add: narrow_def pow_ge_8)

lemma ulong_fits: "11 \<le> b \<Longrightarrow> v < 2048 \<Longrightarrow> \<not> (2::nat) ^ b - Suc 0 < v"
  using pow_ge_11 [of b v] by simp

lemma ulong_fits_one: "11 \<le> b \<Longrightarrow> \<not> (2::nat) ^ b \<le> Suc 0"
  using pow_ge_11 [of b 1] by simp

lemmas eval_parse = ParseDate_def ParseTime_def strtoul_def cstr_def deref_def NUL_def
  isspace_def isdigit_def digits_value_def Let_def field_date_def field_time_def

definition sample_platform :: platform where
  "sample_platform =
     \<lparr>ulong_bits = 32, year_bits = 16, month_bits = 8, day_bits = 8, time_bits = 8\<rparr>"

lemma wide_enough_sample: "wide_enough sample_platform"
  by (simp add: wide_enough_def sample_platform_def)

lemma split_fields_firmware:
  "split_fields ''18CG6NG1.IGC|2011-08-12|12:23:48|02:03:25|TOBIAS BIENIEK|TH|Club'' =
     [''18CG6NG1.IGC'', ''2011-08-12'', ''12:23:48'', ''02:03:25'', ''TOBIAS BIENIEK'',
      ''TH'', ''Club'']"
  by simp

lemma split_fields_documented:
  "split_fields ''2000-11-08|20:05:21|01:21:09|J.Doe|XYZ|15M'' =
     [''2000-11-08'', ''20:05:21'', ''01:21:09'', ''J.Doe'', ''XYZ'', ''15M'']"
  by simp

lemma field_date_firmware:
  "wide_enough pf \<Longrightarrow>
   field_date pf ''2011-08-12'' = Some \<lparr>year = 2011, month = 8, day = 12\<rparr>"
  by (simp add: eval_parse wide_enough_def narrow_11 narrow_8 ulong_fits)

lemma field_date_documented:
  "wide_enough pf \<Longrightarrow>
   field_date pf ''2000-11-08'' = Some \<lparr>year = 2000, month = 11, day = 8\<rparr>"
  by (simp add: eval_parse wide_enough_def narrow_11 narrow_8 ulong_fits)

lemma field_time_firmware:
  "wide_enough pf \<Longrightarrow>
   field_time pf ''12:23:48'' = Some \<lparr>hour = 12, minute = 23, second = 48\<rparr>"
  "wide_enough pf \<Longrightarrow>
   field_time pf ''02:03:25'' = Some \<lparr>hour = 2, minute = 3, second = 25\<rparr>"
  by (simp_all add: eval_parse wide_enough_def narrow_8 ulong_fits ulong_fits_one)

lemma field_time_documented:
  "wide_enough pf \<Longrightarrow>
   field_time pf ''20:05:21'' = Some \<lparr>hour = 20, minute = 5, second = 21\<rparr>"
  "wide_enough pf \<Longrightarrow>
   field_time pf ''01:21:09'' = Some \<lparr>hour = 1, minute = 21, second = 9\<rparr>"
  by (simp_all add: eval_parse wide_enough_def narrow_8 ulong_fits ulong_fits_one)

lemma operator_plus_firmware:
  "wide_enough pf \<Longrightarrow>
   operator_plus pf \<lparr>hour = 12, minute = 23, second = 48\<rparr> \<lparr>hour = 2, minute = 3, second = 25\<rparr>
     = \<lparr>hour = 14, minute = 27, second = 13\<rparr>"
  by (simp add: operator_plus_def wide_enough_def narrow_8)

lemma operator_plus_documented:
  "wide_enough pf \<Longrightarrow>
   operator_plus pf \<lparr>hour = 20, minute = 5, second = 21\<rparr> \<lparr>hour = 1, minute = 21, second = 9\<rparr>
     = \<lparr>hour = 21, minute = 26, second = 30\<rparr>"
  by (simp add: operator_plus_def wide_enough_def narrow_8)

lemma positional_parse_firmware:
  "wide_enough pf \<Longrightarrow>
   positional_parse pf ''18CG6NG1.IGC|2011-08-12|12:23:48|02:03:25|TOBIAS BIENIEK|TH|Club'' =
     Some (\<lparr>year = 2011, month = 8, day = 12\<rparr>, \<lparr>hour = 12, minute = 23, second = 48\<rparr>,
           \<lparr>hour = 14, minute = 27, second = 13\<rparr>)"
  unfolding positional_parse_def record_fields_def split_fields_firmware
  by (simp add: field_date_firmware field_time_firmware operator_plus_firmware)

lemma positional_parse_documented:
  "wide_enough pf \<Longrightarrow>
   positional_parse pf ''2000-11-08|20:05:21|01:21:09|J.Doe|XYZ|15M'' =
     Some (\<lparr>year = 2000, month = 11, day = 8\<rparr>, \<lparr>hour = 20, minute = 5, second = 21\<rparr>,
           \<lparr>hour = 21, minute = 26, second = 30\<rparr>)"
  unfolding positional_parse_def record_fields_def split_fields_documented
  by (simp add: field_date_documented field_time_documented operator_plus_documented
        del: One_nat_def)

lemma ParseRecordInfo_line:
  assumes "NUL \<notin> set line" and "positional_parse pf line = Some (d, st, en)"
  shows "ParseRecordInfo pf line 0 flight =
         (True, flight\<lparr>date := d, start_time := st, end_time := en\<rparr>)"
  using ParseRecordInfo_reading [of pf line 0 flight] assms
  by (simp add: cstr_self returns_reading_def)

text \<open>
  C2. \<^verbatim>\<open>ParseRecordInfo\<close> returns what the positional reading of the line gives: the
  line is split at the delimiter, the first field is dropped exactly when it is longer
  than 10 characters, and the next three fields are the date, the start time and the
  duration; the parser succeeds exactly when that reading exists, and then stores its
  date, its start time and start time plus duration. The line of firmware 5.03 gives
  2011-08-12, 12:23:48 and 14:27:13; the line of the documentation, which has no file
  name, gives 2000-11-08, 20:05:21 and 21:26:30.
\<close>

theorem ParseRecordInfo_positional:
  "returns_reading (ParseRecordInfo pf buf record_info flight) flight
     (parse_three pf
        (let fields = split_fields (cstr buf record_info)
         in if length (hd fields) > 10 then tl fields else fields))
   \<and> (wide_enough pf \<longrightarrow>
        ParseRecordInfo pf
          ''18CG6NG1.IGC|2011-08-12|12:23:48|02:03:25|TOBIAS BIENIEK|TH|Club'' 0 flight =
        (True, flight\<lparr>date := \<lparr>year = 2011, month = 8, day = 12\<rparr>,
                      start_time := \<lparr>hour = 12, minute = 23, second = 48\<rparr>,
                      end_time := \<lparr>hour = 14, minute = 27, second = 13\<rparr>\<rparr>))
   \<and> (wide_enough pf \<longrightarrow>
        ParseRecordInfo pf ''2000-11-08|20:05:21|01:21:09|J.Doe|XYZ|15M'' 0 flight =
        (True, flight\<lparr>date := \<lparr>year = 2000, month = 11, day = 8\<rparr>,
                      start_time := \<lparr>hour = 20, minute = 5, second = 21\<rparr>,
                      end_time := \<lparr>hour = 21, minute = 26, second = 30\<rparr>\<rparr>))"
proof (intro conjI impI)
  show "returns_reading (ParseRecordInfo pf buf record_info flight) flight
     (parse_three pf
        (let fields = split_fields (cstr buf record_info)
         in if length (hd fields) > 10 then tl fields else fields))"
    using ParseRecordInfo_reading [of pf buf record_info flight]
    by (simp add: positional_parse_def record_fields_def)
next
  assume "wide_enough pf"
  then show "ParseRecordInfo pf
          ''18CG6NG1.IGC|2011-08-12|12:23:48|02:03:25|TOBIAS BIENIEK|TH|Club'' 0 flight =
        (True, flight\<lparr>date := \<lparr>year = 2011, month = 8, day = 12\<rparr>,
                      start_time := \<lparr>hour = 12, minute = 23, second = 48\<rparr>,
                      end_time := \<lparr>hour = 14, minute = 27, second = 13\<rparr>\<rparr>)"
    by (intro ParseRecordInfo_line positional_parse_firmware) (simp add: NUL_def)
next
  assume "wide_enough pf"
  then show "ParseRecordInfo pf ''2000-11-08|20:05:21|01:21:09|J.Doe|XYZ|15M'' 0 flight =
        (True, flight\<lparr>date := \<lparr>year = 2000, month = 11, day = 8\<rparr>,
                      start_time := \<lparr>hour = 20, minute = 5, second = 21\<rparr>,
                      end_time := \<lparr>hour = 21, minute = 26, second = 30\<rparr>\<rparr>)"
    by (intro ParseRecordInfo_line positional_parse_documented) (simp add: NUL_def)
qed

theorem ParseRecordInfo_positional_witness:
  "wide_enough sample_platform
   \<and> ParseRecordInfo sample_platform
        ''18CG6NG1.IGC|2011-08-12|12:23:48|02:03:25|TOBIAS BIENIEK|TH|Club'' 0
        (new_flight_info 7) =
      (True, \<lparr>date = \<lparr>year = 2011, month = 8, day = 12\<rparr>,
              start_time = \<lparr>hour = 12, minute = 23, second = 48\<rparr>,
              end_time = \<lparr>hour = 14, minute = 27, second = 13\<rparr>,
              internal_flarm = 7\<rparr>)
   \<and> ParseRecordInfo sample_platform ''2000-11-08|20:05:21|01:21:09|J.Doe|XYZ|15M'' 0
        (new_flight_info 7) =
      (True, \<lparr>date = \<lparr>year = 2000, month = 11, day = 8\<rparr>,
              start_time = \<lparr>hour = 20, minute = 5, second = 21\<rparr>,
              end_time = \<lparr>hour = 21, minute = 26, second = 30\<rparr>,
              internal_flarm = 7\<rparr>)
   \<and> \<not> fst (ParseRecordInfo sample_platform ''18CG6NG1.IGC|2011-08-12'' 0 (new_flight_info 7))"
  using ParseRecordInfo_positional [of sample_platform "''18CG6NG1.IGC|2011-08-12''" 0
          "new_flight_info 7"]
    wide_enough_sample
  by (simp add: new_flight_info_def returns_reading_def cstr_def NUL_def)

text \<open>
  C3. \<^verbatim>\<open>operator+\<close> carries while a field is greater than 60, so a sum of exactly
  60 seconds stays: a flight that starts at 20:05:30 and lasts 01:21:30 gets the end
  time 21:26:60.
\<close>

theorem end_time_sixty_seconds:
  "wide_enough pf \<Longrightarrow>
   ParseRecordInfo pf ''2000-11-08|20:05:30|01:21:30|J.Doe|XYZ|15M'' 0 flight =
     (True, flight\<lparr>date := \<lparr>year = 2000, month = 11, day = 8\<rparr>,
                   start_time := \<lparr>hour = 20, minute = 5, second = 30\<rparr>,
                   end_time := \<lparr>hour = 21, minute = 26, second = 60\<rparr>\<rparr>)"
proof -
  assume w: "wide_enough pf"
  have f: "split_fields ''2000-11-08|20:05:30|01:21:30|J.Doe|XYZ|15M'' =
      [''2000-11-08'', ''20:05:30'', ''01:21:30'', ''J.Doe'', ''XYZ'', ''15M'']"
    by simp
  have t: "field_time pf ''20:05:30'' = Some \<lparr>hour = 20, minute = 5, second = 30\<rparr>"
    "field_time pf ''01:21:30'' = Some \<lparr>hour = 1, minute = 21, second = 30\<rparr>"
    using w by (simp_all add: eval_parse wide_enough_def narrow_8 ulong_fits ulong_fits_one)
  have p: "operator_plus pf \<lparr>hour = 20, minute = 5, second = 30\<rparr>
             \<lparr>hour = 1, minute = 21, second = 30\<rparr> = \<lparr>hour = 21, minute = 26, second = 60\<rparr>"
    using w by (simp add: operator_plus_def wide_enough_def narrow_8)
  have "positional_parse pf ''2000-11-08|20:05:30|01:21:30|J.Doe|XYZ|15M'' =
     Some (\<lparr>year = 2000, month = 11, day = 8\<rparr>, \<lparr>hour = 20, minute = 5, second = 30\<rparr>,
           \<lparr>hour = 21, minute = 26, second = 60\<rparr>)"
    unfolding positional_parse_def record_fields_def f
    using w by (simp add: field_date_documented t p del: One_nat_def)
  then show ?thesis
    by (intro ParseRecordInfo_line) (simp_all add: NUL_def)
qed

theorem end_time_sixty_seconds_witness:
  "wide_enough sample_platform
   \<and> second (end_time (snd (ParseRecordInfo sample_platform
        ''2000-11-08|20:05:30|01:21:30|J.Doe|XYZ|15M'' 0 (new_flight_info 0)))) = 60"
  using end_time_sixty_seconds [OF wide_enough_sample, of "new_flight_info 0"]
    wide_enough_sample
  by simp

section \<open>Selecting and downloading a flight\<close>

lemma emit_fields [simp]:
  "trace (emit e w) = trace w @ [e]"
  "send_ok (emit e w) = send_ok w"
  "cancelled (emit e w) = cancelled w"
  "files (emit e w) = files w"
  "writer_error (emit e w) = writer_error w"
  by (simp_all add: emit_def)

lemma added_append: "trace w' = trace w @ evs \<Longrightarrow> added w w' = evs"
  by (simp add: added_def)

lemma wait_fields:
  "send_ok (snd (WaitForACKOrNACK_data t w)) = send_ok w"
  "cancelled (snd (WaitForACKOrNACK_data t w)) = cancelled w"
  "files (snd (WaitForACKOrNACK_data t w)) = files w"
  "writer_error (snd (WaitForACKOrNACK_data t w)) = writer_error w"
  "trace (snd (WaitForACKOrNACK_data t w)) = trace w @ [EvWaitForACKOrNACK t]"
  by (simp_all add: WaitForACKOrNACK_data_def split: list.splits)

lemma SelectFlight_fields:
  "send_ok (snd (SelectFlight i w)) = send_ok w"
  "cancelled (snd (SelectFlight i w)) = cancelled w"
  "files (snd (SelectFlight i w)) = files w"
  "writer_error (snd (SelectFlight i w)) = writer_error w"
  by (simp_all add: SelectFlight_def SendStartByte_def SendFrameHeader_def SendEscaped_def
        WaitForACKOrNACK_def Let_def wait_fields split_beta)

lemma SelectFlight_trace:
  "\<exists>n. trace (snd (SelectFlight i w)) = trace w @ take n (select_events i)"
proof -
  have "trace (snd (SelectFlight i w)) = trace w @ take 1 (select_events i)
      \<or> trace (snd (SelectFlight i w)) = trace w @ take 2 (select_events i)
      \<or> trace (snd (SelectFlight i w)) = trace w @ take 3 (select_events i)
      \<or> trace (snd (SelectFlight i w)) = trace w @ take 4 (select_events i)"
    using wait_fields(5) [of 1000 "emit (EvSendEscaped [i] 1000)
      (emit (EvSendFrameHeader MT_SELECTRECORD 1000) (emit EvSendStartByte w))"]
    by (simp add: SelectFlight_def SendStartByte_def SendFrameHeader_def SendEscaped_def
        WaitForACKOrNACK_def Let_def select_events_def split_beta)
  then show ?thesis by blast
qed

lemma SelectFlight_added:
  "set (added w (snd (SelectFlight i w))) \<subseteq> set (select_events i)"
proof -
  from SelectFlight_trace [of i w] obtain n where
    "trace (snd (SelectFlight i w)) = trace w @ take n (select_events i)" ..
  then have "added w (snd (SelectFlight i w)) = take n (select_events i)"
    by (rule added_append)
  then show ?thesis by (simp add: set_take_subset)
qed

lemma select_events_no_sink:
  "EvBinaryWriter path \<notin> set (select_events i)"
  "EvSendFrameHeader MT_GETIGCDATA t \<notin> set (select_events i)"
  "EvIsCancelled \<notin> set (select_events i)"
  by (simp_all add: select_events_def)

text \<open>
  C8. When the SELECT exchange for the flight does not return ACK, the download does not
  begin: \<^verbatim>\<open>DownloadFlight\<close> returns failure, no file is touched, no
  \<^verbatim>\<open>BinaryWriter\<close> is constructed, no GETIGCDATA header is sent, and the trace
  grows by events of the SELECT exchange only.
\<close>

theorem DownloadFlight_not_selected:
  assumes "fst (SelectFlight (internal_flarm flight) w) \<noteq> MT_ACK"
  shows "fst (DownloadFlight flight path w) = False
    \<and> files (snd (DownloadFlight flight path w)) = files w
    \<and> EvBinaryWriter path \<notin> set (added w (snd (DownloadFlight flight path w)))
    \<and> (\<forall>t. EvSendFrameHeader MT_GETIGCDATA t \<notin> set (added w (snd (DownloadFlight flight path w))))
    \<and> set (added w (snd (DownloadFlight flight path w)))
          \<subseteq> set (select_events (internal_flarm flight))"
proof -
  have eq: "DownloadFlight flight path w = (False, snd (SelectFlight (internal_flarm flight) w))"
    using assms by (simp add: DownloadFlight_def split_beta)
  have sub: "set (added w (snd (DownloadFlight flight path w)))
          \<subseteq> set (select_events (internal_flarm flight))"
    unfolding eq by (simp add: SelectFlight_added)
  show ?thesis
    using sub select_events_no_sink
    by (auto simp: eq SelectFlight_fields select_events_def)
qed

text \<open>
  C6. When \<^verbatim>\<open>DownloadFlight\<close> for a recorded flight fails after it has constructed
  the \<^verbatim>\<open>BinaryWriter\<close> for the path, whatever made it fail, the last thing it did
  is \<^verbatim>\<open>File::Delete\<close> of that path, and no file is left there.
\<close>

theorem DownloadFlight_failure_deletes:
  assumes fail: "\<not> fst (DownloadFlight flight path w)"
    and opened: "EvBinaryWriter path \<in> set (added w (snd (DownloadFlight flight path w)))"
  shows "files (snd (DownloadFlight flight path w)) path = None
    \<and> last (trace (snd (DownloadFlight flight path w))) = EvDelete path"
proof -
  let ?i = "internal_flarm flight"
  let ?w1 = "snd (SelectFlight ?i w)"
  from SelectFlight_trace [of ?i w] obtain n where
    t1: "trace ?w1 = trace w @ take n (select_events ?i)" ..
  have no1: "EvBinaryWriter path \<notin> set (take n (select_events ?i))"
    using select_events_no_sink(1) [of path ?i] by (auto dest: in_set_takeD)
  show ?thesis
  proof (cases "fst (SelectFlight ?i w) = MT_ACK")
    case False
    then have "DownloadFlight flight path w = (False, ?w1)"
      by (simp add: DownloadFlight_def split_beta)
    then have "added w (snd (DownloadFlight flight path w)) = take n (select_events ?i)"
      using t1 by (simp add: added_append)
    with opened no1 show ?thesis by simp
  next
    case ack: True
    show ?thesis
    proof (cases "cancelled ?w1 (trace ?w1)")
      case True
      then have "DownloadFlight flight path w = (False, emit EvIsCancelled ?w1)"
        using ack by (simp add: DownloadFlight_def split_beta IsCancelled_def)
      then have "added w (snd (DownloadFlight flight path w))
                 = take n (select_events ?i) @ [EvIsCancelled]"
        using t1 by (simp add: added_def)
      with opened no1 show ?thesis by simp
    next
      case False
      then show ?thesis
        using ack fail
        by (simp add: DownloadFlight_def split_beta IsCancelled_def File_Delete_def
            split: if_splits)
    qed
  qed
qed

lemmas eval_world = quiet_world_def emit_def SendStartByte_def SendFrameHeader_def SendEscaped_def
  WaitForACKOrNACK_data_def WaitForACKOrNACK_def IsCancelled_def SetProgressRange_def
  SetProgressPosition_def BinaryWriter_def Write_def File_Delete_def SelectFlight_def
  DownloadFlight_body_def DownloadFlight_loop.simps DownloadFlight_path_def DownloadFlight_def
  Let_def

theorem DownloadFlight_not_selected_witness:
  "fst (SelectFlight (internal_flarm (new_flight_info 3)) (quiet_world [(MT_NACK, [])])) \<noteq> MT_ACK
   \<and> DownloadFlight (new_flight_info 3) ''flight.igc'' (quiet_world [(MT_NACK, [])]) =
       (False, (quiet_world []) \<lparr>trace := select_events 3\<rparr>)
   \<and> EvBinaryWriter ''flight.igc'' \<notin> set (select_events 3)"
  using DownloadFlight_not_selected [of "new_flight_info 3" "quiet_world [(MT_NACK, [])]"
      "''flight.igc''"]
  by (simp add: eval_world new_flight_info_def select_events_def)

text \<open>
  The run of the witness: the flight is selected, two chunks are written, and the third
  request times out.
\<close>

theorem DownloadFlight_failure_deletes_witness:
  "\<not> fst (DownloadFlight (new_flight_info 3) ''flight.igc''
       (quiet_world [(MT_ACK, []), (MT_ACK, [0, 0, 50, 65, 66]), (MT_ACK, [0, 0, 90, 67, 68])]))
   \<and> written (trace (snd (DownloadFlight (new_flight_info 3) ''flight.igc''
       (quiet_world [(MT_ACK, []), (MT_ACK, [0, 0, 50, 65, 66]), (MT_ACK, [0, 0, 90, 67, 68])]))))
       = [65, 66, 67, 68]
   \<and> files (snd (DownloadFlight (new_flight_info 3) ''flight.igc''
       (quiet_world [(MT_ACK, []), (MT_ACK, [0, 0, 50, 65, 66]), (MT_ACK, [0, 0, 90, 67, 68])])))
       ''flight.igc'' = None
   \<and> last (trace (snd (DownloadFlight (new_flight_info 3) ''flight.igc''
       (quiet_world [(MT_ACK, []), (MT_ACK, [0, 0, 50, 65, 66]), (MT_ACK, [0, 0, 90, 67, 68])]))))
       = EvDelete ''flight.igc''"
proof -
  let ?w = "quiet_world [(MT_ACK, []), (MT_ACK, [0, 0, 50, 65, 66]), (MT_ACK, [0, 0, 90, 67, 68])]"
  let ?r = "DownloadFlight (new_flight_info 3) ''flight.igc'' ?w"
  have f: "\<not> fst ?r"
    by (simp add: eval_world new_flight_info_def)
  have t: "trace (snd ?r) =
      select_events 3 @ [EvIsCancelled, EvBinaryWriter ''flight.igc'', EvIsCancelled,
        EvSetProgressRange 100,
        EvSendStartByte, EvSendFrameHeader MT_GETIGCDATA 1000, EvIsCancelled,
        EvWaitForACKOrNACK 3000, EvIsCancelled, EvSetProgressPosition 50, EvWrite [65, 66],
        EvSendStartByte, EvSendFrameHeader MT_GETIGCDATA 1000, EvIsCancelled,
        EvWaitForACKOrNACK 3000, EvIsCancelled, EvSetProgressPosition 90, EvWrite [67, 68],
        EvSendStartByte, EvSendFrameHeader MT_GETIGCDATA 1000, EvIsCancelled,
        EvWaitForACKOrNACK 3000, EvDelete ''flight.igc'']"
    by (simp add: eval_world new_flight_info_def select_events_def)
  have o: "EvBinaryWriter ''flight.igc'' \<in> set (added ?w (snd ?r))"
    unfolding added_def t by (simp add: quiet_world_def)
  have w: "written (trace (snd ?r)) = [65, 66, 67, 68]"
    unfolding t by (simp add: written_def select_events_def)
  show ?thesis
    using DownloadFlight_failure_deletes [OF f o] f w by simp
qed

section \<open>Reading the metadata of a record\<close>

lemma next_cstr:
  assumes "cstr buf r = cstr buf' r'"
  shows "(strchr buf r CHR ''|'' = None \<and> strchr buf' r' CHR ''|'' = None)
       \<or> (\<exists>q q'. strchr buf r CHR ''|'' = Some q \<and> strchr buf' r' CHR ''|'' = Some q'
             \<and> cstr (buf[q := NUL]) r = cstr (buf'[q' := NUL]) r'
             \<and> cstr (buf[q := NUL]) (q + 1) = cstr (buf'[q' := NUL]) (q' + 1))"
proof (cases "CHR ''|'' \<in> set (cstr buf r)")
  case False
  then show ?thesis using assms by (simp add: strchr_None)
next
  case True
  let ?k = "length (takeWhile notbar (cstr buf r))"
  have a: "strchr buf r CHR ''|'' = Some (r + ?k)" using True by (simp add: strchr_def)
  have b: "strchr buf' r' CHR ''|'' = Some (r' + ?k)"
    using True assms by (simp add: strchr_def)
  have True': "CHR ''|'' \<in> set (cstr buf' r')" using True assms by simp
  show ?thesis
    using a b terminate_field [OF True] terminate_field [OF True'] assms by simp
qed

lemma ParseRecordInfo_fields_cstr:
  assumes d: "cstr buf ri = cstr buf' ri'" and p: "cstr buf p = cstr buf' p'"
  shows "ParseRecordInfo_fields pf buf ri p flight = ParseRecordInfo_fields pf buf' ri' p' flight"
proof -
  have pd: "ParseDate pf buf ri (date flight) = ParseDate pf buf' ri' (date flight)"
    by (rule ParseDate_cstr [OF d])
  from next_cstr [OF p] show ?thesis
  proof (elim disjE conjE exE)
    assume "strchr buf p CHR ''|'' = None" "strchr buf' p' CHR ''|'' = None"
    then show ?thesis by (simp add: ParseRecordInfo_fields_def Let_def null_pointer_def split_beta pd)
  next
    fix q q'
    assume s1: "strchr buf p CHR ''|'' = Some q" "strchr buf' p' CHR ''|'' = Some q'"
      and f1: "cstr (buf[q := NUL]) p = cstr (buf'[q' := NUL]) p'"
      and r1: "cstr (buf[q := NUL]) (q + 1) = cstr (buf'[q' := NUL]) (q' + 1)"
    have pt: "ParseTime pf (buf[q := NUL]) p t = ParseTime pf (buf'[q' := NUL]) p' t" for t
      by (rule ParseTime_cstr [OF f1])
    from next_cstr [OF r1] show ?thesis
    proof (elim disjE conjE exE)
      assume "strchr (buf[q := NUL]) (q + 1) CHR ''|'' = None"
        "strchr (buf'[q' := NUL]) (q' + 1) CHR ''|'' = None"
      then show ?thesis using s1 by (simp add: ParseRecordInfo_fields_def Let_def null_pointer_def split_beta pd pt)
    next
      fix q2 q2'
      assume s2: "strchr (buf[q := NUL]) (q + 1) CHR ''|'' = Some q2"
        "strchr (buf'[q' := NUL]) (q' + 1) CHR ''|'' = Some q2'"
        and f2: "cstr (buf[q := NUL, q2 := NUL]) (q + 1) = cstr (buf'[q' := NUL, q2' := NUL]) (q' + 1)"
      have pu: "ParseTime pf (buf[q := NUL, q2 := NUL]) (Suc q) t
              = ParseTime pf (buf'[q' := NUL, q2' := NUL]) (Suc q') t" for t
        using ParseTime_cstr [OF f2] by simp
      show ?thesis using s1 s2 by (simp add: ParseRecordInfo_fields_def Let_def null_pointer_def split_beta pd pt pu)
    qed
  qed
qed

lemma ParseRecordInfo_cstr:
  assumes "cstr buf r = cstr buf' r'"
  shows "ParseRecordInfo pf buf r flight = ParseRecordInfo pf buf' r' flight"
  using next_cstr [OF assms]
proof (elim disjE conjE exE)
  assume "strchr buf r CHR ''|'' = None" "strchr buf' r' CHR ''|'' = None"
  then show ?thesis by (simp add: ParseRecordInfo_def Let_def null_pointer_def)
next
  fix q q'
  assume s1: "strchr buf r CHR ''|'' = Some q" "strchr buf' r' CHR ''|'' = Some q'"
    and f1: "cstr (buf[q := NUL]) r = cstr (buf'[q' := NUL]) r'"
    and r1: "cstr (buf[q := NUL]) (q + 1) = cstr (buf'[q' := NUL]) (q' + 1)"
  have len: "strlen (buf[q := NUL]) r = strlen (buf'[q' := NUL]) r'"
    using f1 by (simp add: strlen_def)
  have short: "ParseRecordInfo_fields pf (buf[q := NUL]) r (q + 1) flight
             = ParseRecordInfo_fields pf (buf'[q' := NUL]) r' (q' + 1) flight"
    by (rule ParseRecordInfo_fields_cstr [OF f1 r1])
  from next_cstr [OF r1] show ?thesis
  proof (elim disjE conjE exE)
    assume "strchr (buf[q := NUL]) (q + 1) CHR ''|'' = None"
      "strchr (buf'[q' := NUL]) (q' + 1) CHR ''|'' = None"
    then show ?thesis using s1 len short by (simp add: ParseRecordInfo_def Let_def null_pointer_def)
  next
    fix q2 q2'
    assume s2: "strchr (buf[q := NUL]) (q + 1) CHR ''|'' = Some q2"
      "strchr (buf'[q' := NUL]) (q' + 1) CHR ''|'' = Some q2'"
      and f2: "cstr (buf[q := NUL, q2 := NUL]) (q + 1) = cstr (buf'[q' := NUL, q2' := NUL]) (q' + 1)"
      and r2: "cstr (buf[q := NUL, q2 := NUL]) (q2 + 1) = cstr (buf'[q' := NUL, q2' := NUL]) (q2' + 1)"
    have long: "ParseRecordInfo_fields pf (buf[q := NUL, q2 := NUL]) (q + 1) (q2 + 1) flight
             = ParseRecordInfo_fields pf (buf'[q' := NUL, q2' := NUL]) (q' + 1) (q2' + 1) flight"
      by (rule ParseRecordInfo_fields_cstr [OF f2 r2])
    show ?thesis using s1 s2 len short long by (simp add: ParseRecordInfo_def Let_def null_pointer_def)
  qed
qed

lemma cstr_chars_drop:
  "drop n data = drop n data' \<Longrightarrow> cstr (chars data) n = cstr (chars data') n"
  by (simp add: cstr_def chars_def drop_map)

lemma chars_bytes: "chars (bytes s) = s"
proof -
  have "char_of (unat (of_char c :: 8 word)) = c" for c
  proof -
    have "(of_char c :: 8 word) = of_nat (of_char c)" by (simp add: of_nat_of_char)
    then have "unat (of_char c :: 8 word) = (of_char c :: nat) mod 2 ^ 8"
      by (simp add: unat_of_nat)
    then show ?thesis by simp
  qed
  then show ?thesis by (simp add: chars_def bytes_def map_idI)
qed

text \<open>
  C9. \<^verbatim>\<open>ReadFlightInfo\<close> succeeds only on an ACK whose payload is longer than 2
  bytes. With both sends successful and such an answer, its result and the flight record
  are those of \<^verbatim>\<open>ParseRecordInfo\<close> run on the payload from byte 2 on. Two payloads
  that agree from byte 2 on give the same result and the same flight record: the first
  two bytes have no influence.
\<close>

theorem ReadFlightInfo_payload:
  "(fst (ReadFlightInfo pf flight w) \<longrightarrow>
      (\<exists>data rs. replies w = (MT_ACK, data) # rs \<and> 2 < length data))
   \<and> (send_ok w (trace w) \<and> send_ok w (trace w @ [EvSendStartByte]) \<and>
        replies w = (MT_ACK, data) # rs \<and> 2 < length data \<longrightarrow>
        fst (ReadFlightInfo pf flight w) = fst (ParseRecordInfo pf (chars data) 2 flight) \<and>
        fst (snd (ReadFlightInfo pf flight w)) = snd (ParseRecordInfo pf (chars data) 2 flight))
   \<and> (2 < length data \<and> 2 < length data' \<and> drop 2 data = drop 2 data' \<longrightarrow>
        fst (ReadFlightInfo pf flight (w\<lparr>replies := (MT_ACK, data) # rs\<rparr>)) =
        fst (ReadFlightInfo pf flight (w\<lparr>replies := (MT_ACK, data') # rs\<rparr>)) \<and>
        fst (snd (ReadFlightInfo pf flight (w\<lparr>replies := (MT_ACK, data) # rs\<rparr>))) =
        fst (snd (ReadFlightInfo pf flight (w\<lparr>replies := (MT_ACK, data') # rs\<rparr>))))"
proof (intro conjI impI)
  assume "fst (ReadFlightInfo pf flight w)"
  then show "\<exists>data rs. replies w = (MT_ACK, data) # rs \<and> 2 < length data"
    by (auto simp: ReadFlightInfo_def SendStartByte_def SendFrameHeader_def
          WaitForACKOrNACK_data_def Let_def split_beta
        split: if_splits list.splits)
next
  assume a: "send_ok w (trace w) \<and> send_ok w (trace w @ [EvSendStartByte]) \<and>
        replies w = (MT_ACK, data) # rs \<and> 2 < length data"
  then show "fst (ReadFlightInfo pf flight w) = fst (ParseRecordInfo pf (chars data) 2 flight)"
    by (simp add: ReadFlightInfo_def SendStartByte_def SendFrameHeader_def
          WaitForACKOrNACK_data_def Let_def split_beta)
  from a show "fst (snd (ReadFlightInfo pf flight w)) = snd (ParseRecordInfo pf (chars data) 2 flight)"
    by (simp add: ReadFlightInfo_def SendStartByte_def SendFrameHeader_def
          WaitForACKOrNACK_data_def Let_def split_beta)
next
  assume a: "2 < length data \<and> 2 < length data' \<and> drop 2 data = drop 2 data'"
  then have e: "ParseRecordInfo pf (chars data) 2 f = ParseRecordInfo pf (chars data') 2 f" for f
    by (intro ParseRecordInfo_cstr cstr_chars_drop) simp
  from a e show "fst (ReadFlightInfo pf flight (w\<lparr>replies := (MT_ACK, data) # rs\<rparr>)) =
        fst (ReadFlightInfo pf flight (w\<lparr>replies := (MT_ACK, data') # rs\<rparr>))"
    by (simp add: ReadFlightInfo_def SendStartByte_def SendFrameHeader_def
          WaitForACKOrNACK_data_def Let_def split_beta emit_def)
  from a e show "fst (snd (ReadFlightInfo pf flight (w\<lparr>replies := (MT_ACK, data) # rs\<rparr>))) =
        fst (snd (ReadFlightInfo pf flight (w\<lparr>replies := (MT_ACK, data') # rs\<rparr>)))"
    by (simp add: ReadFlightInfo_def SendStartByte_def SendFrameHeader_def
          WaitForACKOrNACK_data_def Let_def split_beta emit_def)
qed

lemma ParseRecordInfo_payload_line:
  assumes "NUL \<notin> set line" and "positional_parse pf line = Some (d, st, en)"
  shows "ParseRecordInfo pf (chars (a # b # bytes line)) 2 flight =
         (True, flight\<lparr>date := d, start_time := st, end_time := en\<rparr>)"
proof -
  have "cstr (chars (a # b # bytes line)) 2 = cstr line 0"
    using chars_bytes [of line] by (simp add: cstr_def chars_def)
  then have "ParseRecordInfo pf (chars (a # b # bytes line)) 2 flight
           = ParseRecordInfo pf line 0 flight"
    by (rule ParseRecordInfo_cstr)
  then show ?thesis using ParseRecordInfo_line [OF assms] by simp
qed

lemma documented_line_reading:
  "ParseRecordInfo sample_platform (chars (a # b # bytes documented_line)) 2 (new_flight_info i)
     = (True, \<lparr>date = \<lparr>year = 2000, month = 11, day = 8\<rparr>,
               start_time = \<lparr>hour = 20, minute = 5, second = 21\<rparr>,
               end_time = \<lparr>hour = 21, minute = 26, second = 30\<rparr>,
               internal_flarm = i\<rparr>)"
proof -
  have "ParseRecordInfo sample_platform (chars (a # b # bytes documented_line)) 2
          (new_flight_info i)
     = (True, (new_flight_info i)\<lparr>date := \<lparr>year = 2000, month = 11, day = 8\<rparr>,
        start_time := \<lparr>hour = 20, minute = 5, second = 21\<rparr>,
        end_time := \<lparr>hour = 21, minute = 26, second = 30\<rparr>\<rparr>)"
    unfolding documented_line_def
    by (intro ParseRecordInfo_payload_line positional_parse_documented wide_enough_sample)
       (simp add: NUL_def)
  then show ?thesis by (simp add: new_flight_info_def)
qed

theorem ReadFlightInfo_payload_witness:
  "fst (snd (ReadFlightInfo sample_platform (new_flight_info 4)
     (quiet_world [(MT_ACK, 0xAA # 0xBB # bytes documented_line)])))
     = \<lparr>date = \<lparr>year = 2000, month = 11, day = 8\<rparr>,
        start_time = \<lparr>hour = 20, minute = 5, second = 21\<rparr>,
        end_time = \<lparr>hour = 21, minute = 26, second = 30\<rparr>,
        internal_flarm = 4\<rparr>
   \<and> fst (snd (ReadFlightInfo sample_platform (new_flight_info 4)
     (quiet_world [(MT_ACK, 0x31 # 0x7C # bytes documented_line)])))
     = \<lparr>date = \<lparr>year = 2000, month = 11, day = 8\<rparr>,
        start_time = \<lparr>hour = 20, minute = 5, second = 21\<rparr>,
        end_time = \<lparr>hour = 21, minute = 26, second = 30\<rparr>,
        internal_flarm = 4\<rparr>
   \<and> \<not> fst (ReadFlightInfo sample_platform (new_flight_info 4) (quiet_world [(MT_ACK, [0x32, 0x7C])]))
   \<and> \<not> fst (ReadFlightInfo sample_platform (new_flight_info 4) (quiet_world [(MT_NACK, [])]))"
proof -
  let ?d = "0xAA # 0xBB # bytes documented_line"
  let ?d' = "0x31 # 0x7C # bytes documented_line"
  let ?w = "quiet_world [(MT_ACK, ?d)]"
  have w: "send_ok ?w (trace ?w)" "send_ok ?w (trace ?w @ [EvSendStartByte])"
    "replies ?w = (MT_ACK, ?d) # []" "2 < length ?d" "2 < length ?d'" "drop 2 ?d = drop 2 ?d'"
    by (simp_all add: quiet_world_def bytes_def documented_line_def)
  have u: "?w\<lparr>replies := (MT_ACK, ?d) # []\<rparr> = ?w"
    "?w\<lparr>replies := (MT_ACK, ?d') # []\<rparr> = quiet_world [(MT_ACK, ?d')]"
    by (simp_all add: quiet_world_def)
  note inst = ReadFlightInfo_payload [of sample_platform "new_flight_info 4" ?w ?d "[]" ?d']
  have a: "fst (snd (ReadFlightInfo sample_platform (new_flight_info 4) ?w))
         = snd (ParseRecordInfo sample_platform (chars ?d) 2 (new_flight_info 4))"
    using inst w by blast
  have b: "fst (snd (ReadFlightInfo sample_platform (new_flight_info 4) ?w))
         = fst (snd (ReadFlightInfo sample_platform (new_flight_info 4)
              (quiet_world [(MT_ACK, ?d')])))"
    using inst w unfolding u by blast
  have c: "\<not> fst (ReadFlightInfo sample_platform (new_flight_info 4)
             (quiet_world [(MT_ACK, [0x32, 0x7C])]))"
    using ReadFlightInfo_payload [of sample_platform "new_flight_info 4"
        "quiet_world [(MT_ACK, [0x32, 0x7C])]"]
    by (auto simp: quiet_world_def)
  have d: "\<not> fst (ReadFlightInfo sample_platform (new_flight_info 4) (quiet_world [(MT_NACK, [])]))"
    using ReadFlightInfo_payload [of sample_platform "new_flight_info 4"
        "quiet_world [(MT_NACK, [])]"]
    by (auto simp: quiet_world_def)
  show ?thesis
    using a b c d by (simp add: documented_line_reading)
qed

section \<open>Enumerating the catalogue\<close>

lemma undisturbed_update [simp]:
  "undisturbed (w\<lparr>replies := rs\<rparr>) = undisturbed w"
  "undisturbed (w\<lparr>trace := t\<rparr>) = undisturbed w"
  "undisturbed (w\<lparr>files := f\<rparr>) = undisturbed w"
  by (simp_all add: undisturbed_def)

lemma undisturbed_quiet [simp]: "undisturbed (quiet_world rs)"
  by (simp add: undisturbed_def quiet_world_def)

lemma SelectFlight_undisturbed:
  "undisturbed w \<Longrightarrow> replies w = r # rs \<Longrightarrow>
   SelectFlight i w = (fst r, w\<lparr>replies := rs, trace := trace w @ select_events i\<rparr>)"
  by (simp add: undisturbed_def SelectFlight_def SendStartByte_def SendFrameHeader_def
        SendEscaped_def WaitForACKOrNACK_def WaitForACKOrNACK_data_def emit_def
        select_events_def)

lemma ReadFlightInfo_undisturbed:
  "undisturbed w \<Longrightarrow> replies w = r # rs \<Longrightarrow>
   ReadFlightInfo pf flight w =
     (fst (info_result pf flight r), snd (info_result pf flight r),
      w\<lparr>replies := rs, trace := trace w @ info_events\<rparr>)"
  by (cases r)
     (simp add: undisturbed_def ReadFlightInfo_def SendStartByte_def SendFrameHeader_def
        WaitForACKOrNACK_data_def emit_def info_events_def info_result_def split_beta)

lemma ReadFlightList_body_ACK:
  assumes "undisturbed w" and "replies w = (MT_ACK, p) # r # rs"
  shows "ReadFlightList_body pf i flight_list w =
     (None,
      if fst (info_result pf (new_flight_info i) r)
      then flight_list @ [snd (info_result pf (new_flight_info i) r)] else flight_list,
      w\<lparr>replies := rs,
        trace := trace w @ EvSetProgressPosition (unat i mod 10) # select_events i
                  @ EvIsCancelled # info_events\<rparr>)"
proof -
  let ?w0 = "SetProgressPosition (unat i mod 10) w"
  have u0: "undisturbed ?w0" "replies ?w0 = (MT_ACK, p) # r # rs"
    using assms by (simp_all add: SetProgressPosition_def emit_def)
  note s = SelectFlight_undisturbed [OF u0, of i]
  let ?w1 = "?w0\<lparr>replies := r # rs, trace := trace ?w0 @ select_events i\<rparr>"
  have c: "IsCancelled ?w1 = (False, emit EvIsCancelled ?w1)"
    using assms(1) by (simp add: IsCancelled_def undisturbed_def SetProgressPosition_def emit_def)
  have u2: "undisturbed (emit EvIsCancelled ?w1)" "replies (emit EvIsCancelled ?w1) = r # rs"
    using assms(1) by (simp_all add: emit_def SetProgressPosition_def)
  note i = ReadFlightInfo_undisturbed [OF u2, of pf "new_flight_info i"]
  show ?thesis
    unfolding ReadFlightList_body_def Let_def s split_conv c i
    by (simp add: emit_def SetProgressPosition_def)
qed

lemma ReadFlightList_body_NACK:
  assumes "undisturbed w" and "replies w = (MT_NACK, p) # rs"
  shows "ReadFlightList_body pf i flight_list w =
     (Some True, flight_list,
      w\<lparr>replies := rs,
        trace := trace w @ EvSetProgressPosition (unat i mod 10) # select_events i\<rparr>)"
proof -
  let ?w0 = "SetProgressPosition (unat i mod 10) w"
  have u0: "undisturbed ?w0" "replies ?w0 = (MT_NACK, p) # rs"
    using assms by (simp_all add: SetProgressPosition_def emit_def)
  note s = SelectFlight_undisturbed [OF u0, of i]
  show ?thesis
    unfolding ReadFlightList_body_def Let_def s split_conv
    by (simp add: emit_def SetProgressPosition_def)
qed

text \<open>
  C7. In a round of \<^verbatim>\<open>ReadFlightList\<close> whose SELECT exchange returned ACK and
  which was not cancelled, a \<^verbatim>\<open>ReadFlightInfo\<close> that fails (the exchange or the
  parsing of the line) ends neither the loop nor the call: the list stays as it is and
  the loop goes on with the next record number.
\<close>

theorem unreadable_record_skipped:
  assumes "length flight_list < capacity"
    and "SelectFlight i (SetProgressPosition (unat i mod 10) w) = (MT_ACK, w1)"
    and "IsCancelled w1 = (False, w2)"
    and "ReadFlightInfo pf (new_flight_info i) w2 = (False, flight_info, w3)"
  shows "ReadFlightList_loop pf capacity i flight_list w =
         ReadFlightList_loop pf capacity (i + 1) flight_list w3"
proof -
  have "ReadFlightList_body pf i flight_list w = (None, flight_list, w3)"
    using assms(2-4) by (simp add: ReadFlightList_body_def)
  then show ?thesis
    using assms(1) by (subst ReadFlightList_loop.simps) simp
qed

lemma length_entries: "length (entries pf i infos) \<le> length infos"
  by (induction infos arbitrary: i) (auto intro: le_SucI)

lemma length_entries_all:
  "(\<forall>k < length infos. fst (info_result pf (new_flight_info (i + of_nat k)) (infos ! k))) \<Longrightarrow>
   length (entries pf i infos) = length infos"
proof (induction infos arbitrary: i)
  case Nil
  then show ?case by simp
next
  case (Cons info infos)
  have "fst (info_result pf (new_flight_info i) info)"
    using Cons.prems [rule_format, of 0] by simp
  moreover have "length (entries pf (i + 1) infos) = length infos"
  proof (rule Cons.IH, intro allI impI)
    fix k assume "k < length infos"
    then show "fst (info_result pf (new_flight_info (i + 1 + of_nat k)) (infos ! k))"
      using Cons.prems [rule_format, of "Suc k"] by (simp add: add.assoc)
  qed
  ultimately show ?case by simp
qed

lemma selected_simps [simp]:
  "selected [] = []"
  "selected (xs @ ys) = selected xs @ selected ys"
  "selected (EvSendEscaped data t # evs) = data @ selected evs"
  "selected (EvSendStartByte # evs) = selected evs"
  "selected (EvSendFrameHeader h t # evs) = selected evs"
  "selected (EvWaitForACKOrNACK t # evs) = selected evs"
  "selected (EvIsCancelled # evs) = selected evs"
  "selected (EvSetProgressRange n # evs) = selected evs"
  "selected (EvSetProgressPosition n # evs) = selected evs"
  "selected (EvBinaryWriter path # evs) = selected evs"
  "selected (EvWrite bs # evs) = selected evs"
  "selected (EvDelete path # evs) = selected evs"
  by (simp_all add: selected_def)

lemma selected_select_events [simp]: "selected (select_events i) = [i]"
  by (simp add: select_events_def)

lemma selected_info_events [simp]: "selected info_events = []"
  by (simp add: info_events_def)

lemma counting_from:
  "map (\<lambda>k. i + of_nat k) [0..<Suc n] = (i :: 8 word) # map (\<lambda>k. (i + 1) + of_nat k) [0..<n]"
  by (simp add: map_upt_Suc add.assoc del: upt_Suc)

lemma SelectFlight_sent:
  "\<exists>evs. trace (snd (SelectFlight i w)) = trace w @ evs \<and>
     (evs = select_events i \<or>
      (\<exists>n. 0 < n \<and> n < 4 \<and> evs = take n (select_events i)) \<and>
      fst (SelectFlight i w) = MT_ERROR)"
proof -
  consider (a) "\<not> send_ok w (trace w)"
    | (b) "send_ok w (trace w)" "\<not> send_ok w (trace w @ [EvSendStartByte])"
    | (c) "send_ok w (trace w)" "send_ok w (trace w @ [EvSendStartByte])"
          "\<not> send_ok w (trace w @ [EvSendStartByte, EvSendFrameHeader MT_SELECTRECORD 1000])"
    | (d) "send_ok w (trace w)" "send_ok w (trace w @ [EvSendStartByte])"
          "send_ok w (trace w @ [EvSendStartByte, EvSendFrameHeader MT_SELECTRECORD 1000])"
    by blast
  then show ?thesis
  proof cases
    case a
    then have "trace (snd (SelectFlight i w)) = trace w @ take 1 (select_events i)"
      "fst (SelectFlight i w) = MT_ERROR"
      by (simp_all add: SelectFlight_def SendStartByte_def select_events_def)
    moreover have "(0::nat) < 1 \<and> (1::nat) < 4" by simp
    ultimately show ?thesis by blast
  next
    case b
    then have "trace (snd (SelectFlight i w)) = trace w @ take 2 (select_events i)"
      "fst (SelectFlight i w) = MT_ERROR"
      by (simp_all add: SelectFlight_def SendStartByte_def SendFrameHeader_def select_events_def)
    moreover have "(0::nat) < 2 \<and> (2::nat) < 4" by simp
    ultimately show ?thesis by blast
  next
    case c
    then have "trace (snd (SelectFlight i w)) = trace w @ take 3 (select_events i)"
      "fst (SelectFlight i w) = MT_ERROR"
      by (simp_all add: SelectFlight_def SendStartByte_def SendFrameHeader_def SendEscaped_def
            select_events_def)
    moreover have "(0::nat) < 3 \<and> (3::nat) < 4" by simp
    ultimately show ?thesis by blast
  next
    case d
    then have "trace (snd (SelectFlight i w)) = trace w @ select_events i"
      by (simp add: SelectFlight_def SendStartByte_def SendFrameHeader_def SendEscaped_def
            WaitForACKOrNACK_def split_beta wait_fields select_events_def Let_def)
    then show ?thesis by blast
  qed
qed

lemma selected_take_select_events:
  "selected (take n (select_events i)) = (if 3 \<le> n then [i] else [])"
proof -
  have "n = 0 \<or> n = 1 \<or> n = 2 \<or> 3 \<le> n" by arith
  then show ?thesis
    by (elim disjE) (auto simp: select_events_def take_Cons')
qed

lemma ReadFlightInfo_sent:
  "\<exists>evs. trace (snd (snd (ReadFlightInfo pf flight w))) = trace w @ evs \<and> selected evs = []"
  by (simp add: ReadFlightInfo_def SendStartByte_def SendFrameHeader_def split_beta
        wait_fields Let_def)

lemma ReadFlightList_body_sent:
  "\<exists>evs. trace (snd (snd (ReadFlightList_body pf i fl w))) = trace w @ evs \<and>
     (selected evs = [i] \<or>
      selected evs = [] \<and> fst (ReadFlightList_body pf i fl w) = Some False)"
proof -
  let ?w0 = "SetProgressPosition (unat i mod 10) w"
  let ?w1 = "snd (SelectFlight i ?w0)"
  let ?w2 = "emit EvIsCancelled ?w1"
  have t0: "trace ?w0 = trace w @ [EvSetProgressPosition (unat i mod 10)]"
    by (simp add: SetProgressPosition_def)
  from SelectFlight_sent [of i ?w0] obtain evs1 where
    t1: "trace ?w1 = trace ?w0 @ evs1"
    and c1: "evs1 = select_events i \<or>
      (\<exists>n. 0 < n \<and> n < 4 \<and> evs1 = take n (select_events i)) \<and>
      fst (SelectFlight i ?w0) = MT_ERROR"
    by blast
  from ReadFlightInfo_sent [of pf "new_flight_info i" ?w2] obtain evs2 where
    t2: "trace (snd (snd (ReadFlightInfo pf (new_flight_info i) ?w2))) = trace ?w2 @ evs2"
    and c2: "selected evs2 = []"
    by blast
  have s1: "selected evs1 = [i] \<or> selected evs1 = [] \<and> fst (SelectFlight i ?w0) = MT_ERROR"
    using c1 by (auto simp: selected_take_select_events)
  show ?thesis
  proof (cases "fst (SelectFlight i ?w0) = MT_ACK")
    case False
    then have "trace (snd (snd (ReadFlightList_body pf i fl w)))
             = trace w @ EvSetProgressPosition (unat i mod 10) # evs1"
      using t0 t1 by (simp add: ReadFlightList_body_def split_beta Let_def)
    moreover have "fst (SelectFlight i ?w0) = MT_ERROR \<Longrightarrow>
        fst (ReadFlightList_body pf i fl w) = Some False"
      by (simp add: ReadFlightList_body_def split_beta Let_def)
    ultimately show ?thesis using s1 by auto
  next
    case True
    then have e1: "selected evs1 = [i]" using s1 by auto
    show ?thesis
    proof (cases "cancelled ?w1 (trace ?w1)")
      case c: True
      have "trace (snd (snd (ReadFlightList_body pf i fl w)))
             = trace w @ EvSetProgressPosition (unat i mod 10) # evs1 @ [EvIsCancelled]"
        using True c t0 t1
        by (simp add: ReadFlightList_body_def split_beta Let_def IsCancelled_def)
      then show ?thesis using e1 by auto
    next
      case c: False
      have "trace (snd (snd (ReadFlightList_body pf i fl w)))
             = trace w @ EvSetProgressPosition (unat i mod 10) # evs1 @ EvIsCancelled # evs2"
        using True c t0 t1 t2
        by (simp add: ReadFlightList_body_def split_beta Let_def IsCancelled_def)
      then show ?thesis using e1 c2 by auto
    qed
  qed
qed

lemma ReadFlightList_loop_catalogue:
  assumes "undisturbed w"
    and "replies w = catalogue recs @ (MT_NACK, q) # rest"
    and "length flight_list + length recs < capacity"
  shows "fst (ReadFlightList_loop pf capacity i flight_list w) = True
    \<and> fst (snd (ReadFlightList_loop pf capacity i flight_list w))
        = flight_list @ entries pf i (map snd recs)
    \<and> replies (snd (snd (ReadFlightList_loop pf capacity i flight_list w))) = rest
    \<and> selected (trace (snd (snd (ReadFlightList_loop pf capacity i flight_list w))))
        = selected (trace w) @ map (\<lambda>k. i + of_nat k) [0..<Suc (length recs)]"
  using assms
proof (induction recs arbitrary: i flight_list w)
  case Nil
  then have "ReadFlightList_body pf i flight_list w =
     (Some True, flight_list,
      w\<lparr>replies := rest,
        trace := trace w @ EvSetProgressPosition (unat i mod 10) # select_events i\<rparr>)"
    by (intro ReadFlightList_body_NACK) (simp_all add: catalogue_def)
  then show ?case
    using Nil.prems(3) by (subst (1 2 3 4) ReadFlightList_loop.simps) simp
next
  case (Cons rec recs)
  obtain p info where rec: "rec = (p, info)" by (cases rec)
  let ?ok = "fst (info_result pf (new_flight_info i) info)"
  let ?fl = "if ?ok then flight_list @ [snd (info_result pf (new_flight_info i) info)]
             else flight_list"
  let ?w = "w\<lparr>replies := catalogue recs @ (MT_NACK, q) # rest,
        trace := trace w @ EvSetProgressPosition (unat i mod 10) # select_events i
                  @ EvIsCancelled # info_events\<rparr>"
  have b: "ReadFlightList_body pf i flight_list w = (None, ?fl, ?w)"
    using Cons.prems(1,2) unfolding rec
    by (intro ReadFlightList_body_ACK) (simp_all add: catalogue_def)
  have step: "ReadFlightList_loop pf capacity i flight_list w
            = ReadFlightList_loop pf capacity (i + 1) ?fl ?w"
    using Cons.prems(3) b by (subst ReadFlightList_loop.simps) simp
  have "length ?fl + length recs < capacity" using Cons.prems(3) by simp
  from Cons.IH [OF _ _ this, of ?w "i + 1"] Cons.prems(1)
  show ?case unfolding step rec
    by (simp add: counting_from [of i "Suc (length recs)"] del: upt_Suc)
qed

text \<open>
  The two observations of a round decide what the round does: the answer of the SELECT
  exchange and the poll decide whether the loop ends, and the record is appended exactly
  when the round read it.
\<close>

lemma ReadFlightList_body_round:
  "fst (ReadFlightList_body pf i fl w) =
     (if round_answer i w = MT_NACK then Some True
      else if round_answer i w \<noteq> MT_ACK then Some False
      else if cancelled w (trace (snd (SelectFlight i (SetProgressPosition (unat i mod 10) w))))
      then Some False else None)"
  "fst (snd (ReadFlightList_body pf i fl w)) =
     (if round_readable pf i w
      then fl @ [fst (snd (ReadFlightInfo pf (new_flight_info i)
             (emit EvIsCancelled (snd (SelectFlight i (SetProgressPosition (unat i mod 10) w))))))]
      else fl)"
  by (simp_all add: ReadFlightList_body_def round_answer_def round_readable_def split_beta Let_def
      IsCancelled_def SelectFlight_fields SetProgressPosition_def)

lemma rounds_full: "capacity \<le> length fl \<Longrightarrow> rounds pf capacity i fl w = []"
  by (subst rounds.simps) simp

lemma rounds_unfold:
  "\<not> capacity \<le> length fl \<Longrightarrow>
   rounds pf capacity i fl w =
     (round_answer i w, round_readable pf i w) #
     (if fst (ReadFlightList_body pf i fl w) = None
      then rounds pf capacity (i + 1) (fst (snd (ReadFlightList_body pf i fl w)))
             (snd (snd (ReadFlightList_body pf i fl w)))
      else [])"
proof -
  assume c: "\<not> capacity \<le> length fl"
  obtain r fl' w' where b: "ReadFlightList_body pf i fl w = (r, fl', w')"
    by (cases "ReadFlightList_body pf i fl w") auto
  show ?thesis
    unfolding b using c by (subst rounds.simps) (simp add: b split: option.splits)
qed

lemma ReadFlightList_loop_unfold:
  "\<not> capacity \<le> length fl \<Longrightarrow>
   ReadFlightList_loop pf capacity i fl w =
     (case fst (ReadFlightList_body pf i fl w) of
        None \<Rightarrow> ReadFlightList_loop pf capacity (i + 1) (fst (snd (ReadFlightList_body pf i fl w)))
                 (snd (snd (ReadFlightList_body pf i fl w)))
      | Some b \<Rightarrow> (b, snd (ReadFlightList_body pf i fl w)))"
proof -
  assume c: "\<not> capacity \<le> length fl"
  obtain r fl' w' where b: "ReadFlightList_body pf i fl w = (r, fl', w')"
    by (cases "ReadFlightList_body pf i fl w") auto
  show ?thesis
    unfolding b using c by (subst ReadFlightList_loop.simps) (simp add: b split: option.splits)
qed

lemma ReadFlightList_body_selected:
  assumes "fst (ReadFlightList_body pf i fl w) \<noteq> Some False"
  shows "selected (trace (snd (snd (ReadFlightList_body pf i fl w)))) = selected (trace w) @ [i]"
proof -
  from ReadFlightList_body_sent [of pf i fl w] obtain evs where
    t: "trace (snd (snd (ReadFlightList_body pf i fl w))) = trace w @ evs"
    and c: "selected evs = [i] \<or>
      selected evs = [] \<and> fst (ReadFlightList_body pf i fl w) = Some False"
    by blast
  from c assms have "selected evs = [i]" by blast
  then show ?thesis unfolding t by simp
qed

lemma rounds_stop:
  assumes "map fst (rounds pf capacity i fl w) = replicate n MT_ACK @ [MT_NACK]"
  shows "fst (ReadFlightList_loop pf capacity i fl w)
    \<and> length (fst (snd (ReadFlightList_loop pf capacity i fl w)))
        = length fl + length (filter snd (rounds pf capacity i fl w))
    \<and> selected (trace (snd (snd (ReadFlightList_loop pf capacity i fl w))))
        = selected (trace w) @ map (\<lambda>k. i + of_nat k) [0..<Suc n]"
  using assms
proof (induction n arbitrary: i fl w)
  case 0
  have c: "\<not> capacity \<le> length fl"
    using 0 rounds_full [of capacity fl pf i w] by auto
  note u = rounds_unfold [OF c, of pf i w]
  have a: "round_answer i w = MT_NACK" using 0 unfolding u by simp
  have nr: "\<not> round_readable pf i w"
    using a by (simp add: round_readable_def round_answer_def split_beta)
  have b: "fst (ReadFlightList_body pf i fl w) = Some True"
    "fst (snd (ReadFlightList_body pf i fl w)) = fl"
    using a nr ReadFlightList_body_round [of pf i fl w] by simp_all
  have s: "selected (trace (snd (snd (ReadFlightList_body pf i fl w)))) = selected (trace w) @ [i]"
    by (rule ReadFlightList_body_selected) (simp add: b(1))
  have r: "rounds pf capacity i fl w = [(MT_NACK, False)]"
    unfolding u using a nr b(1) by simp
  have l: "fst (ReadFlightList_loop pf capacity i fl w) = True"
    "fst (snd (ReadFlightList_loop pf capacity i fl w)) = fl"
    "snd (snd (ReadFlightList_loop pf capacity i fl w)) = snd (snd (ReadFlightList_body pf i fl w))"
    unfolding ReadFlightList_loop_unfold [OF c] using b by simp_all
  show ?case unfolding l r using s by simp
next
  case (Suc n)
  have c: "\<not> capacity \<le> length fl"
    using Suc.prems rounds_full [of capacity fl pf i w] by auto
  note u = rounds_unfold [OF c, of pf i w]
  let ?b = "ReadFlightList_body pf i fl w"
  have a: "round_answer i w = MT_ACK" using Suc.prems unfolding u by simp
  have go: "fst ?b = None"
    and rest: "map fst (rounds pf capacity (i + 1) (fst (snd ?b)) (snd (snd ?b)))
             = replicate n MT_ACK @ [MT_NACK]"
    using Suc.prems unfolding u by (simp_all split: if_splits)
  note fl' = ReadFlightList_body_round(2) [of pf i fl w]
  have s: "selected (trace (snd (snd ?b))) = selected (trace w) @ [i]"
    by (rule ReadFlightList_body_selected) (simp add: go)
  have l: "ReadFlightList_loop pf capacity i fl w
         = ReadFlightList_loop pf capacity (i + 1) (fst (snd ?b)) (snd (snd ?b))"
    unfolding ReadFlightList_loop_unfold [OF c] using go by simp
  have r: "rounds pf capacity i fl w = (MT_ACK, round_readable pf i w) #
      rounds pf capacity (i + 1) (fst (snd ?b)) (snd (snd ?b))"
    unfolding u using a go by simp
  from Suc.IH [OF rest] show ?case
    unfolding l r s fl'
    by (simp add: counting_from [of i "Suc n"] del: upt_Suc)
qed

lemma round_readable_ACK: "round_readable pf i w \<Longrightarrow> round_answer i w = MT_ACK"
  by (simp add: round_readable_def round_answer_def split_beta)

lemma rounds_readable_ACK:
  "(a, True) \<in> set (rounds pf capacity i fl w) \<Longrightarrow> a = MT_ACK"
proof (induction pf capacity i fl w rule: rounds.induct)
  case (1 pf capacity i fl w)
  show ?case
  proof (cases "capacity \<le> length fl")
    case True
    then show ?thesis using "1.prems" by (simp add: rounds_full)
  next
    case False
    obtain r fl' w' where b: "ReadFlightList_body pf i fl w = (r, fl', w')"
      by (cases "ReadFlightList_body pf i fl w") auto
    note u = rounds_unfold [OF False, of pf i w]
    from "1.prems" have "(a, True) = (round_answer i w, round_readable pf i w)
        \<or> r = None \<and> (a, True) \<in> set (rounds pf capacity (i + 1) fl' w')"
      unfolding u b by (simp split: if_splits)
    then show ?thesis
    proof
      assume "(a, True) = (round_answer i w, round_readable pf i w)"
      then show ?thesis using round_readable_ACK [of pf i w] by simp
    next
      assume h: "r = None \<and> (a, True) \<in> set (rounds pf capacity (i + 1) fl' w')"
      then have "(None, fl', w') = ReadFlightList_body pf i fl w" using b by simp
      from "1.IH" [OF False this refl] h show ?thesis by simp
    qed
  qed
qed

lemma length_filter_all: "(length (filter P xs) = length xs) = list_all P xs"
proof (induction xs)
  case Nil
  then show ?case by simp
next
  case (Cons x xs)
  have "length (filter P xs) \<noteq> Suc (length xs)"
    using length_filter_le [of P xs] by arith
  then show ?case using Cons by auto
qed

lemma rounds_count:
  assumes "map fst (rounds pf capacity i fl w) = replicate n MT_ACK @ [MT_NACK]"
  shows "filter snd (rounds pf capacity i fl w) = filter snd (take n (rounds pf capacity i fl w))"
    and "length (take n (rounds pf capacity i fl w)) = n"
proof -
  let ?rs = "rounds pf capacity i fl w"
  have len: "length ?rs = Suc n"
    using arg_cong [OF assms, of length] by simp
  then have ne: "?rs \<noteq> []" by auto
  have "fst (last ?rs) = MT_NACK"
    using arg_cong [OF assms, of last] ne by (simp add: last_map)
  moreover have "fst (last ?rs) = MT_ACK" if "snd (last ?rs)"
  proof -
    have "(fst (last ?rs), snd (last ?rs)) \<in> set ?rs" using ne by simp
    then have "(fst (last ?rs), True) \<in> set ?rs" using that by simp
    then show ?thesis by (rule rounds_readable_ACK)
  qed
  ultimately have nl: "\<not> snd (last ?rs)" by auto
  have "?rs = take n ?rs @ [last ?rs]"
    using len ne by (metis append_butlast_last_id butlast_conv_take diff_Suc_1)
  then have "filter snd ?rs = filter snd (take n ?rs @ [last ?rs])" by simp
  then show "filter snd ?rs = filter snd (take n ?rs)" using nl by simp
  show "length (take n ?rs) = n" using len by simp
qed

lemma rounds_catalogue:
  assumes "undisturbed w"
    and "replies w = catalogue recs @ (MT_NACK, q) # rest"
    and "length fl + length recs < capacity"
  shows "map fst (rounds pf capacity i fl w) = replicate (length recs) MT_ACK @ [MT_NACK]"
  using assms
proof (induction recs arbitrary: i fl w)
  case Nil
  have c: "\<not> capacity \<le> length fl" using Nil.prems(3) by simp
  have b: "ReadFlightList_body pf i fl w =
     (Some True, fl,
      w\<lparr>replies := rest,
        trace := trace w @ EvSetProgressPosition (unat i mod 10) # select_events i\<rparr>)"
    using Nil.prems by (intro ReadFlightList_body_NACK) (simp_all add: catalogue_def)
  have "fst (ReadFlightList_body pf i fl w) = Some True" unfolding b by simp
  then have "round_answer i w = MT_NACK"
    unfolding ReadFlightList_body_round(1) by (simp split: if_splits)
  then show ?case unfolding rounds_unfold [OF c] b by simp
next
  case (Cons rec recs)
  obtain p info where rec: "rec = (p, info)" by (cases rec)
  have c: "\<not> capacity \<le> length fl" using Cons.prems(3) by simp
  let ?fl = "if fst (info_result pf (new_flight_info i) info)
             then fl @ [snd (info_result pf (new_flight_info i) info)] else fl"
  let ?w = "w\<lparr>replies := catalogue recs @ (MT_NACK, q) # rest,
        trace := trace w @ EvSetProgressPosition (unat i mod 10) # select_events i
                  @ EvIsCancelled # info_events\<rparr>"
  have b: "ReadFlightList_body pf i fl w = (None, ?fl, ?w)"
    using Cons.prems(1,2) unfolding rec
    by (intro ReadFlightList_body_ACK) (simp_all add: catalogue_def)
  have "fst (ReadFlightList_body pf i fl w) = None" unfolding b by simp
  then have a: "round_answer i w = MT_ACK"
    unfolding ReadFlightList_body_round(1) by (simp split: if_splits)
  have "length ?fl + length recs < capacity" using Cons.prems(3) by simp
  from Cons.IH [OF _ _ this, of ?w "i + 1"] Cons.prems(1)
  show ?case unfolding rounds_unfold [OF c] b using a by simp
qed

text \<open>
  C5, amended. The rounds of a call are observed as they run: what the SELECT exchange of
  each round returned, and whether the round read its record. In every run of
  \<^verbatim>\<open>ReadFlightList\<close> on an empty list in which the SELECT exchanges of the first
  \<open>n\<close> rounds return ACK and that of the next round returns NACK, whatever else the
  link, the device and the environment do, the call returns success and has sent the
  record numbers 0 to \<open>n\<close> and no other. The list has one entry for each round that
  read its record: its length is at most \<open>n\<close>, and it is \<open>n\<close> exactly when all
  \<open>n\<close> records were read. On an undisturbed link, when the device acknowledges the
  SELECT exchanges of \<open>n\<close> records and answers NACK to the next one, with \<open>n\<close> below
  the capacity of the list, the run is such a run; the list then holds the entries of
  the readable metadata lines among the \<open>n\<close>, in order, and the answers after the NACK
  are left unread.
\<close>

theorem ReadFlightList_stops_at_NACK:
  "(map fst (catalogue_rounds pf capacity w) = replicate n MT_ACK @ [MT_NACK] \<longrightarrow>
      fst (ReadFlightList pf capacity [] w)
      \<and> selected (trace (snd (snd (ReadFlightList pf capacity [] w))))
          = selected (trace w) @ map of_nat [0..<Suc n]
      \<and> length (fst (snd (ReadFlightList pf capacity [] w)))
          = length (filter snd (catalogue_rounds pf capacity w))
      \<and> length (fst (snd (ReadFlightList pf capacity [] w))) \<le> n
      \<and> (length (fst (snd (ReadFlightList pf capacity [] w))) = n)
          = list_all snd (take n (catalogue_rounds pf capacity w)))
   \<and> (undisturbed w \<and> replies w = catalogue recs @ (MT_NACK, q) # rest \<and> length recs < capacity \<longrightarrow>
      map fst (catalogue_rounds pf capacity w) = replicate (length recs) MT_ACK @ [MT_NACK]
      \<and> fst (snd (ReadFlightList pf capacity [] w)) = entries pf 0 (map snd recs)
      \<and> ((\<forall>k < length recs. fst (info_result pf (new_flight_info (of_nat k)) (snd (recs ! k))))
           \<longrightarrow> length (fst (snd (ReadFlightList pf capacity [] w))) = length recs)
      \<and> replies (snd (snd (ReadFlightList pf capacity [] w))) = rest)"
proof (intro conjI impI)
  let ?w = "SetProgressRange 10 w"
  let ?rs = "catalogue_rounds pf capacity w"
  assume a: "map fst ?rs = replicate n MT_ACK @ [MT_NACK]"
  then have a': "map fst (rounds pf capacity 0 [] ?w) = replicate n MT_ACK @ [MT_NACK]"
    by (simp add: catalogue_rounds_def)
  note s = rounds_stop [OF a']
  note k = rounds_count [OF a', folded catalogue_rounds_def]
  show "fst (ReadFlightList pf capacity [] w)"
    using s by (simp add: ReadFlightList_def)
  show "selected (trace (snd (snd (ReadFlightList pf capacity [] w))))
          = selected (trace w) @ map of_nat [0..<Suc n]"
    using s by (simp add: ReadFlightList_def SetProgressRange_def)
  show l: "length (fst (snd (ReadFlightList pf capacity [] w))) = length (filter snd ?rs)"
    using s by (simp add: ReadFlightList_def catalogue_rounds_def)
  have "length (filter snd (take n ?rs)) \<le> length (take n ?rs)" by (rule length_filter_le)
  then show "length (fst (snd (ReadFlightList pf capacity [] w))) \<le> n"
    unfolding l k(1) k(2) .
  show "(length (fst (snd (ReadFlightList pf capacity [] w))) = n)
          = list_all snd (take n ?rs)"
    unfolding l k(1) using length_filter_all [of snd "take n ?rs"] k(2) by simp
next
  let ?w = "SetProgressRange 10 w"
  assume h: "undisturbed w \<and> replies w = catalogue recs @ (MT_NACK, q) # rest \<and> length recs < capacity"
  then have w: "undisturbed ?w" "replies ?w = catalogue recs @ (MT_NACK, q) # rest"
    "length ([] :: RecordedFlightInfo list) + length recs < capacity"
    by (simp_all add: SetProgressRange_def emit_def)
  note l = ReadFlightList_loop_catalogue [OF w, of pf 0]
  show "map fst (catalogue_rounds pf capacity w) = replicate (length recs) MT_ACK @ [MT_NACK]"
    unfolding catalogue_rounds_def by (rule rounds_catalogue [OF w])
  show e: "fst (snd (ReadFlightList pf capacity [] w)) = entries pf 0 (map snd recs)"
    using l by (simp add: ReadFlightList_def)
  show "length (fst (snd (ReadFlightList pf capacity [] w))) = length recs"
    if "\<forall>k < length recs. fst (info_result pf (new_flight_info (of_nat k)) (snd (recs ! k)))"
    unfolding e using length_entries_all [of "map snd recs" pf 0] that by simp
  show "replies (snd (snd (ReadFlightList pf capacity [] w))) = rest"
    using l by (simp add: ReadFlightList_def)
qed

lemma cstr_payload: "cstr (chars (a # b # bytes line)) 2 = cstr line 0"
  using chars_bytes [of line] by (simp add: cstr_def chars_def)

lemma info_result_no_delimiter:
  assumes "CHR ''|'' \<notin> set line"
  shows "info_result pf flight (MT_ACK, a # b # bytes line) = (False, flight)"
proof -
  have "CHR ''|'' \<notin> set (cstr (chars (a # b # bytes line)) 2)"
    using assms unfolding cstr_payload by (auto simp: cstr_def dest: set_takeWhileD)
  then have "strchr (chars (a # b # bytes line)) 2 CHR ''|'' = None"
    by (simp add: strchr_None)
  then show ?thesis by (simp add: info_result_def ParseRecordInfo_def)
qed

lemma info_result_documented:
  "info_result sample_platform (new_flight_info i) (MT_ACK, a # b # bytes documented_line) =
     (True, \<lparr>date = \<lparr>year = 2000, month = 11, day = 8\<rparr>,
             start_time = \<lparr>hour = 20, minute = 5, second = 21\<rparr>,
             end_time = \<lparr>hour = 21, minute = 26, second = 30\<rparr>,
             internal_flarm = i\<rparr>)"
proof -
  have "bytes documented_line \<noteq> []" by (simp add: bytes_def documented_line_def)
  then show ?thesis by (simp add: info_result_def documented_line_reading)
qed

lemma lossy_rounds:
  "catalogue_rounds sample_platform 10 (lossy_world [(MT_ACK, []), (MT_NACK, [])])
     = [(MT_ACK, False), (MT_NACK, False)]"
  by (simp add: catalogue_rounds_def rounds.simps round_answer_def round_readable_def
      ReadFlightList_body_def ReadFlightInfo_def lossy_world_def eval_world)

text \<open>
  Two runs. On the lossy link the device acknowledges the SELECT exchange of record 0,
  the start byte of the GETRECORDINFO request is lost, and the SELECT exchange of record 1
  is answered NACK: the call returns success with an empty list. On the quiet link the
  record is read.
\<close>

theorem ReadFlightList_stops_at_NACK_witness:
  "map fst (catalogue_rounds sample_platform 10 (lossy_world [(MT_ACK, []), (MT_NACK, [])]))
     = [MT_ACK, MT_NACK]
   \<and> fst (ReadFlightList sample_platform 10 [] (lossy_world [(MT_ACK, []), (MT_NACK, [])]))
   \<and> fst (snd (ReadFlightList sample_platform 10 [] (lossy_world [(MT_ACK, []), (MT_NACK, [])])))
       = []
   \<and> undisturbed (quiet_world [(MT_ACK, []), (MT_ACK, 0 # 0 # bytes documented_line), (MT_NACK, [])])
   \<and> fst (ReadFlightList sample_platform 10 []
         (quiet_world [(MT_ACK, []), (MT_ACK, 0 # 0 # bytes documented_line), (MT_NACK, [])]))
   \<and> fst (snd (ReadFlightList sample_platform 10 []
         (quiet_world [(MT_ACK, []), (MT_ACK, 0 # 0 # bytes documented_line), (MT_NACK, [])])))
       = [\<lparr>date = \<lparr>year = 2000, month = 11, day = 8\<rparr>,
           start_time = \<lparr>hour = 20, minute = 5, second = 21\<rparr>,
           end_time = \<lparr>hour = 21, minute = 26, second = 30\<rparr>,
           internal_flarm = 0\<rparr>]"
proof -
  let ?v = "lossy_world [(MT_ACK, []), (MT_NACK, [])]"
  let ?w = "quiet_world [(MT_ACK, []), (MT_ACK, 0 # 0 # bytes documented_line), (MT_NACK, [])]"
  have r: "replies ?w = catalogue [([], (MT_ACK, 0 # 0 # bytes documented_line))] @ (MT_NACK, []) # []"
    by (simp add: quiet_world_def catalogue_def)
  have v: "map fst (catalogue_rounds sample_platform 10 ?v) = replicate 1 MT_ACK @ [MT_NACK]"
    "filter snd (catalogue_rounds sample_platform 10 ?v) = []"
    by (simp_all add: lossy_rounds)
  have a: "fst (ReadFlightList sample_platform 10 [] ?v)"
    "length (fst (snd (ReadFlightList sample_platform 10 [] ?v))) = 0"
    using ReadFlightList_stops_at_NACK [of sample_platform 10 ?v 1] v by simp_all
  have b: "fst (ReadFlightList sample_platform 10 [] ?w)"
    "fst (snd (ReadFlightList sample_platform 10 [] ?w))
       = entries sample_platform 0 [(MT_ACK, 0 # 0 # bytes documented_line)]"
    using ReadFlightList_stops_at_NACK [of sample_platform 10 ?w 1
        "[([], (MT_ACK, 0 # 0 # bytes documented_line))]" "[]" "[]"] r undisturbed_quiet [of "replies ?w"]
    by simp_all
  show ?thesis
    using a b v(1) by (simp add: info_result_documented)
qed

text \<open>
  C5 as stated fails: the device acknowledges the SELECT exchange of record 0, answers
  NACK to the GETRECORDINFO exchange of that record, and answers NACK to the SELECT
  exchange of record 1. \<^verbatim>\<open>ReadFlightList\<close> returns success with an empty list after
  one ACK.
\<close>

theorem list_shorter_than_acks:
  "map fst (catalogue_rounds sample_platform 10
         (quiet_world [(MT_ACK, []), (MT_NACK, []), (MT_NACK, [])])) = [MT_ACK, MT_NACK]
   \<and> fst (ReadFlightList sample_platform 10 []
         (quiet_world [(MT_ACK, []), (MT_NACK, []), (MT_NACK, [])]))
   \<and> fst (snd (ReadFlightList sample_platform 10 []
         (quiet_world [(MT_ACK, []), (MT_NACK, []), (MT_NACK, [])]))) = []
   \<and> selected (trace (snd (snd (ReadFlightList sample_platform 10 []
         (quiet_world [(MT_ACK, []), (MT_NACK, []), (MT_NACK, [])])))))
       = [0, 1]"
proof -
  let ?w = "quiet_world [(MT_ACK, []), (MT_NACK, []), (MT_NACK, [])]"
  let ?w' = "SetProgressRange 10 ?w"
  have r: "undisturbed ?w'"
    "replies ?w' = catalogue [([], (MT_NACK, []))] @ (MT_NACK, []) # []"
    "length ([] :: RecordedFlightInfo list)
       + length [([] :: byte list, (MT_NACK, [] :: byte list))] < 10"
    "selected (trace ?w') = []"
    by (simp_all add: quiet_world_def catalogue_def SetProgressRange_def emit_def undisturbed_def)
  have c: "info_result sample_platform (new_flight_info 0) (MT_NACK, []) = (False, new_flight_info 0)"
    by (simp add: info_result_def)
  have k: "map fst (catalogue_rounds sample_platform 10 ?w) = [MT_ACK, MT_NACK]"
    unfolding catalogue_rounds_def
    using rounds_catalogue [OF r(1-3), of sample_platform 0] by simp
  show ?thesis
    using ReadFlightList_loop_catalogue [OF r(1-3), of sample_platform 0] r(4) c k
    by (simp add: ReadFlightList_def)
qed

theorem unreadable_record_skipped_witness:
  "fst (ReadFlightList_loop sample_platform 10 0 []
     (quiet_world [(MT_ACK, []), (MT_ACK, 0 # 0 # bytes ''corrupt''),
                   (MT_ACK, []), (MT_ACK, 0 # 0 # bytes documented_line), (MT_NACK, [])]))
   \<and> fst (snd (ReadFlightList_loop sample_platform 10 0 []
     (quiet_world [(MT_ACK, []), (MT_ACK, 0 # 0 # bytes ''corrupt''),
                   (MT_ACK, []), (MT_ACK, 0 # 0 # bytes documented_line), (MT_NACK, [])])))
     = [\<lparr>date = \<lparr>year = 2000, month = 11, day = 8\<rparr>,
         start_time = \<lparr>hour = 20, minute = 5, second = 21\<rparr>,
         end_time = \<lparr>hour = 21, minute = 26, second = 30\<rparr>,
         internal_flarm = 1\<rparr>]"
proof -
  let ?rest = "[(MT_ACK, []), (MT_ACK, 0 # 0 # bytes documented_line), (MT_NACK, [])]"
  let ?w = "quiet_world ((MT_ACK, []) # (MT_ACK, 0 # 0 # bytes ''corrupt'') # ?rest)"
  let ?w0 = "SetProgressPosition (unat (0 :: 8 word) mod 10) ?w"
  let ?w1 = "?w0\<lparr>replies := (MT_ACK, 0 # 0 # bytes ''corrupt'') # ?rest,
                  trace := trace ?w0 @ select_events 0\<rparr>"
  let ?w2 = "emit EvIsCancelled ?w1"
  let ?w3 = "?w2\<lparr>replies := ?rest, trace := trace ?w2 @ info_events\<rparr>"
  have u0: "undisturbed ?w0" "replies ?w0 = (MT_ACK, []) # (MT_ACK, 0 # 0 # bytes ''corrupt'') # ?rest"
    by (simp_all add: SetProgressPosition_def emit_def quiet_world_def undisturbed_def)
  have s: "SelectFlight 0 ?w0 = (MT_ACK, ?w1)"
    using SelectFlight_undisturbed [OF u0, of 0] by simp
  have c: "IsCancelled ?w1 = (False, ?w2)"
    by (simp add: IsCancelled_def SetProgressPosition_def emit_def quiet_world_def)
  have u2: "undisturbed ?w2" "replies ?w2 = (MT_ACK, 0 # 0 # bytes ''corrupt'') # ?rest"
    by (simp_all add: SetProgressPosition_def emit_def quiet_world_def undisturbed_def)
  have i: "ReadFlightInfo sample_platform (new_flight_info 0) ?w2 = (False, new_flight_info 0, ?w3)"
    using ReadFlightInfo_undisturbed [OF u2, of sample_platform "new_flight_info 0"]
    by (simp add: info_result_no_delimiter)
  have l: "length ([] :: RecordedFlightInfo list) < 10" by simp
  note skip = unreadable_record_skipped [OF l s c i]
  have u3: "undisturbed ?w3"
    "replies ?w3 = catalogue [([], (MT_ACK, 0 # 0 # bytes documented_line))] @ (MT_NACK, []) # []"
    "length ([] :: RecordedFlightInfo list)
       + length [([] :: byte list, (MT_ACK, 0 # 0 # bytes documented_line))] < 10"
    by (simp_all add: SetProgressPosition_def emit_def quiet_world_def undisturbed_def catalogue_def)
  show ?thesis
    unfolding skip
    using ReadFlightList_loop_catalogue [OF u3, of sample_platform "0 + 1"]
    by (simp add: info_result_documented)
qed

lemma ReadFlightList_loop_sent:
  "\<exists>evs n. trace (snd (snd (ReadFlightList_loop pf capacity i fl w))) = trace w @ evs \<and>
     selected evs = map (\<lambda>k. i + of_nat k) [0..<n]"
proof (induction pf capacity i fl w rule: ReadFlightList_loop.induct)
  case (1 pf capacity i fl w)
  show ?case
  proof (cases "capacity \<le> length fl")
    case True
    then have "trace (snd (snd (ReadFlightList_loop pf capacity i fl w))) = trace w @ []"
      by (subst ReadFlightList_loop.simps) simp
    moreover have "selected [] = map (\<lambda>k. i + of_nat k) [0..<0]" by simp
    ultimately show ?thesis by blast
  next
    case False
    obtain r fl' w' where b: "ReadFlightList_body pf i fl w = (r, fl', w')"
      by (cases "ReadFlightList_body pf i fl w") auto
    from ReadFlightList_body_sent [of pf i fl w] b obtain evs where
      t: "trace w' = trace w @ evs"
      and c: "selected evs = [i] \<or> selected evs = [] \<and> r = Some False"
      by auto
    show ?thesis
    proof (cases r)
      case (Some x)
      then have "trace (snd (snd (ReadFlightList_loop pf capacity i fl w))) = trace w @ evs"
        using False b t by (subst ReadFlightList_loop.simps) simp
      moreover have "selected evs = map (\<lambda>k. i + of_nat k) [0..<0]
                   \<or> selected evs = map (\<lambda>k. i + of_nat k) [0..<1]"
        using c by auto
      ultimately show ?thesis by blast
    next
      case None
      then have e: "selected evs = [i]" using c by auto
      from "1.IH" [OF False b [symmetric] None refl] obtain evs' n where
        t': "trace (snd (snd (ReadFlightList_loop pf capacity (i + 1) fl' w'))) = trace w' @ evs'"
        and s': "selected evs' = map (\<lambda>k. i + 1 + of_nat k) [0..<n]"
        by blast
      have "ReadFlightList_loop pf capacity i fl w = ReadFlightList_loop pf capacity (i + 1) fl' w'"
        using False b None by (subst ReadFlightList_loop.simps) simp
      then have "trace (snd (snd (ReadFlightList_loop pf capacity i fl w)))
               = trace w @ (evs @ evs')"
        using t t' by simp
      moreover have "selected (evs @ evs') = map (\<lambda>k. i + of_nat k) [0..<Suc n]"
        using e s' by (simp add: counting_from del: upt_Suc)
      ultimately show ?thesis by blast
    qed
  qed
qed

text \<open>
  C10. The record number of \<^verbatim>\<open>ReadFlightList\<close> is an 8-bit counter: among the
  record numbers that a call sends, the \<open>k\<close>-th (counting from 0) is \<open>k\<close> modulo
  256, whatever the device, the link and the environment do. In the run of the witness
  the device acknowledges 256 records that are all unreadable, so the list does not
  fill, and the 257th SELECT exchange carries record number 0 again.
\<close>

theorem record_number_wraps:
  assumes "k < length (selected (added w (snd (snd (ReadFlightList pf capacity fl w)))))"
  shows "selected (added w (snd (snd (ReadFlightList pf capacity fl w)))) ! k = of_nat k
    \<and> unat (selected (added w (snd (snd (ReadFlightList pf capacity fl w)))) ! k) = k mod 256"
proof -
  let ?w = "SetProgressRange 10 w"
  from ReadFlightList_loop_sent [of pf capacity 0 fl ?w] obtain evs n where
    t: "trace (snd (snd (ReadFlightList_loop pf capacity 0 fl ?w))) = trace ?w @ evs"
    and s: "selected evs = map (\<lambda>k. 0 + of_nat k) [0..<n]"
    by blast
  have "added w (snd (snd (ReadFlightList pf capacity fl w))) = EvSetProgressRange 10 # evs"
    using t by (simp add: ReadFlightList_def added_def SetProgressRange_def)
  then have a: "selected (added w (snd (snd (ReadFlightList pf capacity fl w))))
              = map of_nat [0..<n]"
    using s by simp
  then have "k < n" using assms by simp
  then have "selected (added w (snd (snd (ReadFlightList pf capacity fl w)))) ! k = of_nat k"
    unfolding a by simp
  then show ?thesis by (simp add: unat_of_nat)
qed

theorem record_number_wraps_witness:
  "256 < length (selected (added
      (quiet_world (catalogue (replicate 256 ([], (MT_NACK, []))) @ [(MT_NACK, [])]))
      (snd (snd (ReadFlightList sample_platform 1000 []
        (quiet_world (catalogue (replicate 256 ([], (MT_NACK, []))) @ [(MT_NACK, [])])))))))
   \<and> selected (added
      (quiet_world (catalogue (replicate 256 ([], (MT_NACK, []))) @ [(MT_NACK, [])]))
      (snd (snd (ReadFlightList sample_platform 1000 []
        (quiet_world (catalogue (replicate 256 ([], (MT_NACK, []))) @ [(MT_NACK, [])])))))) ! 256
     = 0"
proof -
  let ?w = "quiet_world (catalogue (replicate 256 ([], (MT_NACK, []))) @ [(MT_NACK, [])])"
  let ?w' = "SetProgressRange 10 ?w"
  have r: "undisturbed ?w'"
    "replies ?w' = catalogue (replicate 256 ([], (MT_NACK, []))) @ (MT_NACK, []) # []"
    "length ([] :: RecordedFlightInfo list)
       + length (replicate 256 ([] :: byte list, (MT_NACK, [] :: byte list))) < 1000"
    by (simp_all add: quiet_world_def SetProgressRange_def emit_def undisturbed_def)
  have t: "trace ?w = []" by (simp add: quiet_world_def)
  have "selected (trace (snd (snd (ReadFlightList sample_platform 1000 [] ?w))))
      = map of_nat [0..<257]"
    using ReadFlightList_loop_catalogue [OF r, of sample_platform 0]
    by (simp add: ReadFlightList_def SetProgressRange_def t del: upt_Suc)
  then have l: "256 < length (selected (added ?w
      (snd (snd (ReadFlightList sample_platform 1000 [] ?w)))))"
    by (simp add: added_def t del: upt_Suc)
  show ?thesis
    using record_number_wraps [OF l] l by simp
qed

lemma ReadFlightList_body_cancelled:
  assumes "\<forall>tr. cancelled w tr"
  shows "\<exists>b n. 2 \<le> n \<and> ReadFlightList_body pf i fl w =
           (Some b, fl, w\<lparr>replies := replies (snd (snd (ReadFlightList_body pf i fl w))),
                         trace := trace w @
              take n (EvSetProgressPosition (unat i mod 10) # select_events i @ [EvIsCancelled])\<rparr>)"
proof -
  let ?w0 = "SetProgressPosition (unat i mod 10) w"
  let ?w1 = "snd (SelectFlight i ?w0)"
  let ?all = "EvSetProgressPosition (unat i mod 10) # select_events i @ [EvIsCancelled]"
  have f: "send_ok ?w1 = send_ok w" "cancelled ?w1 = cancelled w" "files ?w1 = files w"
    "writer_error ?w1 = writer_error w"
    by (simp_all add: SelectFlight_fields SetProgressPosition_def)
  from SelectFlight_sent [of i ?w0] obtain evs1 where
    t1: "trace ?w1 = trace ?w0 @ evs1"
    and c1: "evs1 = select_events i \<or>
      (\<exists>n. 0 < n \<and> n < 4 \<and> evs1 = take n (select_events i)) \<and>
      fst (SelectFlight i ?w0) = MT_ERROR"
    by blast
  have t1': "trace ?w1 = trace w @ EvSetProgressPosition (unat i mod 10) # evs1"
    using t1 by (simp add: SetProgressPosition_def)
  have w1: "?w1 = w\<lparr>replies := replies ?w1,
                      trace := trace w @ EvSetProgressPosition (unat i mod 10) # evs1\<rparr>"
    using f t1' by (intro world.equality) simp_all
  show ?thesis
  proof (cases "fst (SelectFlight i ?w0) = MT_ACK")
    case True
    then have e: "evs1 = select_events i" using c1 by auto
    have "ReadFlightList_body pf i fl w = (Some False, fl, emit EvIsCancelled ?w1)"
      using True assms f by (simp add: ReadFlightList_body_def split_beta Let_def IsCancelled_def)
    moreover have "emit EvIsCancelled ?w1 = w\<lparr>replies := replies (emit EvIsCancelled ?w1),
                         trace := trace w @ take 6 ?all\<rparr>"
      using f t1' e by (intro world.equality) (simp_all add: select_events_def)
    moreover have "(2::nat) \<le> 6" by simp
    ultimately show ?thesis by (metis snd_conv)
  next
    case False
    then have b: "ReadFlightList_body pf i fl w =
        (Some (fst (SelectFlight i ?w0) = MT_NACK), fl, ?w1)"
      by (simp add: ReadFlightList_body_def split_beta Let_def)
    from c1 have "\<exists>n. 0 < n \<and> n \<le> 4 \<and> evs1 = take n (select_events i)"
    proof (elim disjE conjE exE)
      assume "evs1 = select_events i"
      then have "(0::nat) < 4 \<and> (4::nat) \<le> 4 \<and> evs1 = take 4 (select_events i)"
        by (simp add: select_events_def)
      then show ?thesis by blast
    next
      fix n assume "0 < n" "n < 4" "evs1 = take n (select_events i)"
      then have "0 < n \<and> n \<le> 4 \<and> evs1 = take n (select_events i)" by simp
      then show ?thesis by blast
    qed
    then obtain n where n: "0 < n" "n \<le> 4" "evs1 = take n (select_events i)" by blast
    have "length (select_events i) = 4" by (simp add: select_events_def)
    with n have "EvSetProgressPosition (unat i mod 10) # evs1 = take (Suc n) ?all"
      by simp
    then have "?w1 = w\<lparr>replies := replies ?w1, trace := trace w @ take (Suc n) ?all\<rparr>"
      using w1 by simp
    moreover have "2 \<le> Suc n" using n(1) by simp
    ultimately show ?thesis using b by (metis snd_conv)
  qed
qed

lemma flag_set_from_start:
  assumes "\<forall>tr. cancelled w tr"
  shows "\<not> fst (DownloadFlight_path path w)
    \<and> set (added w (snd (DownloadFlight_path path w))) \<subseteq> {EvBinaryWriter path, EvIsCancelled}
    \<and> fst (snd (ReadFlightList pf capacity fl w)) = fl
    \<and> (\<exists>n. (length fl < capacity \<longrightarrow> 2 \<le> n) \<and>
          added w (snd (snd (ReadFlightList pf capacity fl w))) =
          EvSetProgressRange 10 #
          take n (EvSetProgressPosition 0 # select_events 0 @ [EvIsCancelled]))"
proof (intro conjI)
  show "\<not> fst (DownloadFlight_path path w)"
    using assms by (simp add: DownloadFlight_path_def BinaryWriter_def IsCancelled_def Let_def)
  show "set (added w (snd (DownloadFlight_path path w))) \<subseteq> {EvBinaryWriter path, EvIsCancelled}"
    using assms
    by (simp add: DownloadFlight_path_def BinaryWriter_def IsCancelled_def Let_def added_def)
next
  let ?w = "SetProgressRange 10 w"
  let ?all = "EvSetProgressPosition 0 # select_events 0 @ [EvIsCancelled]"
  have c: "\<forall>tr. cancelled ?w tr" using assms by (simp add: SetProgressRange_def)
  from ReadFlightList_body_cancelled [OF c, of pf 0 fl] obtain b n where
    n: "2 \<le> n" and
    b: "ReadFlightList_body pf 0 fl ?w =
           (Some b, fl, ?w\<lparr>replies := replies (snd (snd (ReadFlightList_body pf 0 fl ?w))),
                          trace := trace ?w @ take n ?all\<rparr>)"
    by auto
  have r: "ReadFlightList pf capacity fl w =
      (if capacity \<le> length fl then (True, fl, ?w)
       else (b, fl, ?w\<lparr>replies := replies (snd (snd (ReadFlightList_body pf 0 fl ?w))),
                          trace := trace ?w @ take n ?all\<rparr>))"
    unfolding ReadFlightList_def Let_def
    by (subst ReadFlightList_loop.simps, subst b) simp
  show "fst (snd (ReadFlightList pf capacity fl w)) = fl"
    unfolding r by simp
  have "added w (snd (snd (ReadFlightList pf capacity fl w))) =
          EvSetProgressRange 10 # take (if capacity \<le> length fl then 0 else n) ?all"
    unfolding r by (simp add: added_def SetProgressRange_def)
  moreover have "length fl < capacity \<longrightarrow>
      2 \<le> (if capacity \<le> length fl then 0 else n)"
    using n by simp
  ultimately show "\<exists>n. (length fl < capacity \<longrightarrow> 2 \<le> n) \<and>
      added w (snd (snd (ReadFlightList pf capacity fl w))) =
          EvSetProgressRange 10 # take n ?all"
    by blast
qed

lemma each_event_append:
  "each_event P before (xs @ ys) = (each_event P before xs \<and> each_event P (before @ xs) ys)"
  by (induction xs arbitrary: before) auto

lemma polled_Nil [simp]: "\<not> polled_clear c []" "\<not> polled_set c []"
  by (simp_all add: polled_clear_def polled_set_def)

lemma polled_Cons [simp]:
  "polled_clear c (x # xs) = (last (x # xs) = EvIsCancelled \<and> \<not> c (butlast (x # xs)))"
  "polled_set c (x # xs) = (last (x # xs) = EvIsCancelled \<and> c (butlast (x # xs)))"
  by (simp_all add: polled_clear_def polled_set_def)

lemma polled_append [simp]:
  "polled_clear c (evs @ x # xs)
     = (last (x # xs) = EvIsCancelled \<and> \<not> c (evs @ butlast (x # xs)))"
  "polled_set c (evs @ x # xs) = (last (x # xs) = EvIsCancelled \<and> c (evs @ butlast (x # xs)))"
  by (simp_all add: polled_clear_def polled_set_def butlast_append)

lemma guarded_Nil [simp]: "\<not> guarded c []"
  by (simp add: guarded_def)

lemma guarded_append:
  "guarded c (evs @ xs) =
     (if list_all progress_or_write xs then guarded c evs
      else polled_clear c (evs @ rev (dropWhile progress_or_write (rev xs))))"
proof (induction xs rule: rev_induct)
  case Nil
  then show ?case by simp
next
  case (snoc x xs)
  show ?case
  proof (cases "progress_or_write x")
    case True
    have "guarded c (evs @ xs @ [x]) = guarded c (evs @ xs)"
      using True by (simp add: guarded_def)
    then show ?thesis using True snoc by simp
  next
    case False
    then show ?thesis by (simp add: guarded_def)
  qed
qed

lemma guarded_Cons:
  "guarded c (x # xs) = polled_clear c (rev (dropWhile progress_or_write (rev (x # xs))))"
  by (simp add: guarded_def)

lemma guarded_not_polled_set: "guarded c evs \<Longrightarrow> \<not> polled_set c evs"
proof (cases evs rule: rev_cases)
  case Nil
  then show ?thesis by simp
next
  case (snoc xs e)
  assume "guarded c evs"
  then show ?thesis unfolding snoc by (cases e) (auto simp: guarded_def split: if_splits)
qed

lemmas body_defs = SendStartByte_def SendFrameHeader_def SendEscaped_def IsCancelled_def
  WaitForACKOrNACK_data_def WaitForACKOrNACK_def SetProgressPosition_def SetProgressRange_def
  Write_def BinaryWriter_def split_beta Let_def

lemma DownloadFlight_body_polls:
  assumes t: "trace w = t0 @ before" and g: "guarded (\<lambda>p. cancelled w (t0 @ p)) before"
  shows "\<exists>evs. trace (snd (DownloadFlight_body path w)) = trace w @ evs
     \<and> cancelled (snd (DownloadFlight_body path w)) = cancelled w
     \<and> each_event (download_poll (\<lambda>p. cancelled w (t0 @ p))) before evs
     \<and> (fst (DownloadFlight_body path w) = None
          \<longrightarrow> guarded (\<lambda>p. cancelled w (t0 @ p)) (before @ evs))
     \<and> (polled_set (\<lambda>p. cancelled w (t0 @ p)) (before @ evs)
          \<longrightarrow> fst (DownloadFlight_body path w) = Some False)"
proof -
  let ?c = "\<lambda>p. cancelled w (t0 @ p)"
  let ?b = "DownloadFlight_body path w"
  let ?S = "EvSendStartByte" and ?H = "EvSendFrameHeader MT_GETIGCDATA 1000"
  let ?P = "EvIsCancelled" and ?W = "EvWaitForACKOrNACK 3000"
  note ns = guarded_not_polled_set [OF g]
  obtain a d where r: "fst (WaitForACKOrNACK_data 3000 (w\<lparr>trace := trace w @ [?S, ?H, ?P]\<rparr>)) = (a, d)"
    by (cases "fst (WaitForACKOrNACK_data 3000 (w\<lparr>trace := trace w @ [?S, ?H, ?P]\<rparr>))") auto
  consider (s1) "\<not> send_ok w (trace w)"
    | (s2) "send_ok w (trace w)" "\<not> send_ok w (trace w @ [?S])"
    | (c1) "send_ok w (trace w)" "send_ok w (trace w @ [?S])" "cancelled w (trace w @ [?S, ?H])"
    | (r) "send_ok w (trace w)" "send_ok w (trace w @ [?S])" "\<not> cancelled w (trace w @ [?S, ?H])"
          "a \<noteq> MT_ACK \<or> length d \<le> 3"
    | (c2) "send_ok w (trace w)" "send_ok w (trace w @ [?S])" "\<not> cancelled w (trace w @ [?S, ?H])"
          "a = MT_ACK" "3 < length d" "cancelled w (trace w @ [?S, ?H, ?P, ?W])"
    | (ok) "send_ok w (trace w)" "send_ok w (trace w @ [?S])" "\<not> cancelled w (trace w @ [?S, ?H])"
          "a = MT_ACK" "3 < length d" "\<not> cancelled w (trace w @ [?S, ?H, ?P, ?W])"
    by (cases "a = MT_ACK"; cases "3 < length d"; auto)
  then show ?thesis
  proof cases
    case s1
    have f: "trace (snd ?b) = trace w @ [?S]" "cancelled (snd ?b) = cancelled w"
      "fst ?b = Some False"
      using s1 by (simp_all add: DownloadFlight_body_def body_defs emit_def)
    have e: "each_event (download_poll ?c) before [?S]"
      using g ns by (simp add: download_poll_def)
    show ?thesis
      by (rule exI [of _ "[?S]"]) (simp only: f e polled_append, simp)
  next
    case s2
    have f: "trace (snd ?b) = trace w @ [?S, ?H]" "cancelled (snd ?b) = cancelled w"
      "fst ?b = Some False"
      using s2 by (simp_all add: DownloadFlight_body_def body_defs emit_def)
    have e: "each_event (download_poll ?c) before [?S, ?H]"
      using g ns by (simp add: download_poll_def)
    show ?thesis
      by (rule exI [of _ "[?S, ?H]"]) (simp only: f e polled_append, simp)
  next
    case c1
    have f: "trace (snd ?b) = trace w @ [?S, ?H, ?P]" "cancelled (snd ?b) = cancelled w"
      "fst ?b = Some False"
      using c1 by (simp_all add: DownloadFlight_body_def body_defs emit_def)
    have e: "each_event (download_poll ?c) before [?S, ?H, ?P]"
      using g ns by (simp add: download_poll_def)
    show ?thesis
      by (rule exI [of _ "[?S, ?H, ?P]"]) (simp only: f e polled_append, simp)
  next
    case r
    have f: "trace (snd ?b) = trace w @ [?S, ?H, ?P, ?W]" "cancelled (snd ?b) = cancelled w"
      "fst ?b = Some False"
      using r(1-4) \<open>fst (WaitForACKOrNACK_data 3000 (w\<lparr>trace := trace w @ [?S, ?H, ?P]\<rparr>)) = (a, d)\<close>
        wait_fields [of 3000 "w\<lparr>trace := trace w @ [?S, ?H, ?P]\<rparr>"]
      by (auto simp: DownloadFlight_body_def SendStartByte_def SendFrameHeader_def IsCancelled_def
          emit_def Let_def split_beta)
    have e: "each_event (download_poll ?c) before [?S, ?H, ?P, ?W]"
      using g ns r(3) t by (simp add: download_poll_def)
    show ?thesis
      by (rule exI [of _ "[?S, ?H, ?P, ?W]"]) (simp only: f e polled_append, simp)
  next
    case c2
    have f: "trace (snd ?b) = trace w @ [?S, ?H, ?P, ?W, ?P]" "cancelled (snd ?b) = cancelled w"
      "fst ?b = Some False"
      using c2 \<open>fst (WaitForACKOrNACK_data 3000 (w\<lparr>trace := trace w @ [?S, ?H, ?P]\<rparr>)) = (a, d)\<close>
        wait_fields [of 3000 "w\<lparr>trace := trace w @ [?S, ?H, ?P]\<rparr>"]
      by (auto simp: DownloadFlight_body_def SendStartByte_def SendFrameHeader_def IsCancelled_def
          emit_def Let_def split_beta)
    have e: "each_event (download_poll ?c) before [?S, ?H, ?P, ?W, ?P]"
      using g ns c2(3) t by (simp add: download_poll_def)
    show ?thesis
      by (rule exI [of _ "[?S, ?H, ?P, ?W, ?P]"]) (simp only: f e polled_append, simp)
  next
    case ok
    let ?n = "min (unat (d ! 2)) 100"
    have f: "trace (snd ?b) = trace w @ [?S, ?H, ?P, ?W, ?P, EvSetProgressPosition ?n,
               EvWrite (chunk_data d)]"
      "cancelled (snd ?b) = cancelled w" "fst ?b \<noteq> Some False"
      using ok \<open>fst (WaitForACKOrNACK_data 3000 (w\<lparr>trace := trace w @ [?S, ?H, ?P]\<rparr>)) = (a, d)\<close>
        wait_fields [of 3000 "w\<lparr>trace := trace w @ [?S, ?H, ?P]\<rparr>"]
      by (auto simp: DownloadFlight_body_def SendStartByte_def SendFrameHeader_def IsCancelled_def
          SetProgressPosition_def Write_def emit_def Let_def split_beta chunk_data_def
          butlast_conv_take)
    have e: "each_event (download_poll ?c) before [?S, ?H, ?P, ?W, ?P, EvSetProgressPosition ?n,
               EvWrite (chunk_data d)]"
      using g ns ok(3,6) t by (simp add: download_poll_def)
    have g': "guarded ?c (before @ [?S, ?H, ?P, ?W, ?P, EvSetProgressPosition ?n,
               EvWrite (chunk_data d)])"
      using ok(6) t by (simp add: guarded_append)
    show ?thesis
      by (rule exI [of _ "[?S, ?H, ?P, ?W, ?P, EvSetProgressPosition ?n, EvWrite (chunk_data d)]"])
         (simp only: f e g' polled_append, simp)
  qed
qed

lemma DownloadFlight_loop_polls:
  assumes "trace w = t0 @ before" and "guarded (\<lambda>p. cancelled w (t0 @ p)) before"
  shows "\<exists>evs. trace (snd (DownloadFlight_loop path w)) = trace w @ evs
     \<and> each_event (download_poll (\<lambda>p. cancelled w (t0 @ p))) before evs
     \<and> (polled_set (\<lambda>p. cancelled w (t0 @ p)) (before @ evs)
          \<longrightarrow> \<not> fst (DownloadFlight_loop path w))"
  using assms
proof (induction path w arbitrary: before rule: DownloadFlight_loop.induct)
  case (1 path w)
  let ?c = "\<lambda>p. cancelled w (t0 @ p)"
  obtain r w' where b: "DownloadFlight_body path w = (r, w')"
    by (cases "DownloadFlight_body path w") auto
  from DownloadFlight_body_polls [OF "1.prems", of path] obtain evs where
    e: "trace w' = trace w @ evs" "cancelled w' = cancelled w"
      "each_event (download_poll ?c) before evs"
      "r = None \<longrightarrow> guarded ?c (before @ evs)"
      "polled_set ?c (before @ evs) \<longrightarrow> r = Some False"
    unfolding b by auto
  show ?case
  proof (cases r)
    case (Some x)
    then have l: "DownloadFlight_loop path w = (x, w')"
      using b by (subst DownloadFlight_loop.simps) simp
    show ?thesis
      unfolding l using e Some by (intro exI [of _ evs]) simp
  next
    case None
    then have l: "DownloadFlight_loop path w = DownloadFlight_loop path w'"
      using b by (subst DownloadFlight_loop.simps) simp
    have t': "trace w' = t0 @ (before @ evs)" using e(1) "1.prems"(1) by simp
    have g': "guarded (\<lambda>p. cancelled w' (t0 @ p)) (before @ evs)"
      using e(2,4) None by simp
    from "1.IH" [OF b [symmetric] None t' g'] obtain evs' where
      e': "trace (snd (DownloadFlight_loop path w')) = trace w' @ evs'"
        "each_event (download_poll ?c) (before @ evs) evs'"
        "polled_set ?c ((before @ evs) @ evs') \<longrightarrow> \<not> fst (DownloadFlight_loop path w')"
      unfolding e(2) by blast
    show ?thesis
      unfolding l using e(1,3) e'
      by (intro exI [of _ "evs @ evs'"]) (simp add: each_event_append)
  qed
qed

lemma DownloadFlight_path_polls:
  "trace (snd (DownloadFlight_path path w)) = trace w @ added w (snd (DownloadFlight_path path w))
   \<and> each_event (download_poll (flag_during w)) [] (added w (snd (DownloadFlight_path path w)))
   \<and> (polled_set (flag_during w) (added w (snd (DownloadFlight_path path w)))
        \<longrightarrow> \<not> fst (DownloadFlight_path path w))"
proof -
  let ?c = "\<lambda>p. cancelled w (trace w @ p)"
  let ?B = "EvBinaryWriter path" and ?P = "EvIsCancelled" and ?R = "EvSetProgressRange 100"
  have fd: "flag_during w = ?c" by (simp add: flag_during_def fun_eq_iff)
  consider (err) "writer_error w" | (set) "\<not> writer_error w" "cancelled w (trace w @ [?B])"
    | (go) "\<not> writer_error w" "\<not> cancelled w (trace w @ [?B])"
    by blast
  then have "\<exists>evs. trace (snd (DownloadFlight_path path w)) = trace w @ evs
     \<and> each_event (download_poll ?c) [] evs
     \<and> (polled_set ?c evs \<longrightarrow> \<not> fst (DownloadFlight_path path w))"
  proof cases
    case err
    then have "trace (snd (DownloadFlight_path path w)) = trace w @ [?B]"
      by (simp add: DownloadFlight_path_def BinaryWriter_def)
    then show ?thesis
      by (intro exI [of _ "[?B]"]) (simp add: download_poll_def)
  next
    case set
    then have "trace (snd (DownloadFlight_path path w)) = trace w @ [?B, ?P]"
      "\<not> fst (DownloadFlight_path path w)"
      by (simp_all add: DownloadFlight_path_def BinaryWriter_def IsCancelled_def)
    then show ?thesis
      by (intro exI [of _ "[?B, ?P]"]) (simp add: download_poll_def)
  next
    case go
    let ?w = "SetProgressRange 100
      (emit ?P (emit ?B (w\<lparr>files := (files w)(path \<mapsto> [])\<rparr>)))"
    have p: "DownloadFlight_path path w = DownloadFlight_loop path ?w"
      using go by (simp add: DownloadFlight_path_def BinaryWriter_def IsCancelled_def)
    have w': "trace ?w = trace w @ [?B, ?P, ?R]" "cancelled ?w = cancelled w"
      by (simp_all add: SetProgressRange_def)
    have g: "guarded (\<lambda>p. cancelled ?w (trace w @ p)) [?B, ?P, ?R]"
      using go(2) unfolding w'(2) by (simp add: guarded_Cons)
    from DownloadFlight_loop_polls [OF w'(1) g, of path] obtain evs where
      e: "trace (snd (DownloadFlight_loop path ?w)) = trace ?w @ evs"
        "each_event (download_poll ?c) [?B, ?P, ?R] evs"
        "polled_set ?c ([?B, ?P, ?R] @ evs) \<longrightarrow> \<not> fst (DownloadFlight_loop path ?w)"
      unfolding w'(2) by blast
    show ?thesis
      unfolding p using e go(2) w'(1)
      by (intro exI [of _ "[?B, ?P, ?R] @ evs"]) (simp add: download_poll_def)
  qed
  then obtain evs where
    e: "trace (snd (DownloadFlight_path path w)) = trace w @ evs"
      "each_event (download_poll ?c) [] evs"
      "polled_set ?c evs \<longrightarrow> \<not> fst (DownloadFlight_path path w)"
    by blast
  have a: "added w (snd (DownloadFlight_path path w)) = evs"
    using e(1) by (rule added_append)
  show ?thesis unfolding a fd using e by simp
qed

lemma after_select_append [simp]: "after_select (evs @ select_events i)"
  by (simp add: after_select_def select_events_def)

lemma ReadFlightList_body_polls:
  assumes t: "trace w = t0 @ before"
    and g: "\<not> guarded (\<lambda>p. cancelled w (t0 @ p)) before"
    and ns: "\<not> polled_set (\<lambda>p. cancelled w (t0 @ p)) before"
  shows "\<exists>evs. trace (snd (snd (ReadFlightList_body pf i fl w))) = trace w @ evs
     \<and> cancelled (snd (snd (ReadFlightList_body pf i fl w))) = cancelled w
     \<and> each_event (catalogue_poll (\<lambda>p. cancelled w (t0 @ p))) before evs
     \<and> (fst (ReadFlightList_body pf i fl w) = None
          \<longrightarrow> \<not> guarded (\<lambda>p. cancelled w (t0 @ p)) (before @ evs)
            \<and> \<not> polled_set (\<lambda>p. cancelled w (t0 @ p)) (before @ evs))
     \<and> (polled_set (\<lambda>p. cancelled w (t0 @ p)) (before @ evs)
          \<longrightarrow> fst (ReadFlightList_body pf i fl w) = Some False)"
proof -
  let ?c = "\<lambda>p. cancelled w (t0 @ p)"
  let ?b = "ReadFlightList_body pf i fl w"
  let ?N = "EvSetProgressPosition (unat i mod 10)"
  let ?S = "EvSendStartByte" and ?H = "EvSendFrameHeader MT_SELECTRECORD 1000"
  let ?E = "EvSendEscaped [i] 1000" and ?W = "EvWaitForACKOrNACK 1000"
  let ?P = "EvIsCancelled" and ?H' = "EvSendFrameHeader MT_GETRECORDINFO 1000"
  let ?wE = "emit ?E (emit ?H (emit ?S (emit ?N w)))"
  let ?a = "fst (fst (WaitForACKOrNACK_data 1000 ?wE))"
  note defs = ReadFlightList_body_def SelectFlight_def ReadFlightInfo_def SendStartByte_def
    SendFrameHeader_def SendEscaped_def IsCancelled_def WaitForACKOrNACK_def
    SetProgressPosition_def split_beta Let_def wait_fields
  consider (s1) "\<not> send_ok w (trace w @ [?N])"
    | (s2) "send_ok w (trace w @ [?N])" "\<not> send_ok w (trace w @ [?N, ?S])"
    | (s3) "send_ok w (trace w @ [?N])" "send_ok w (trace w @ [?N, ?S])"
           "\<not> send_ok w (trace w @ [?N, ?S, ?H])"
    | (n) "send_ok w (trace w @ [?N])" "send_ok w (trace w @ [?N, ?S])"
           "send_ok w (trace w @ [?N, ?S, ?H])" "?a \<noteq> MT_ACK"
    | (c) "send_ok w (trace w @ [?N])" "send_ok w (trace w @ [?N, ?S])"
           "send_ok w (trace w @ [?N, ?S, ?H])" "?a = MT_ACK"
           "cancelled w (trace w @ [?N, ?S, ?H, ?E, ?W])"
    | (i1) "send_ok w (trace w @ [?N])" "send_ok w (trace w @ [?N, ?S])"
           "send_ok w (trace w @ [?N, ?S, ?H])" "?a = MT_ACK"
           "\<not> cancelled w (trace w @ [?N, ?S, ?H, ?E, ?W])"
           "\<not> send_ok w (trace w @ [?N, ?S, ?H, ?E, ?W, ?P])"
    | (i2) "send_ok w (trace w @ [?N])" "send_ok w (trace w @ [?N, ?S])"
           "send_ok w (trace w @ [?N, ?S, ?H])" "?a = MT_ACK"
           "\<not> cancelled w (trace w @ [?N, ?S, ?H, ?E, ?W])"
           "send_ok w (trace w @ [?N, ?S, ?H, ?E, ?W, ?P])"
           "\<not> send_ok w (trace w @ [?N, ?S, ?H, ?E, ?W, ?P, ?S])"
    | (i3) "send_ok w (trace w @ [?N])" "send_ok w (trace w @ [?N, ?S])"
           "send_ok w (trace w @ [?N, ?S, ?H])" "?a = MT_ACK"
           "\<not> cancelled w (trace w @ [?N, ?S, ?H, ?E, ?W])"
           "send_ok w (trace w @ [?N, ?S, ?H, ?E, ?W, ?P])"
           "send_ok w (trace w @ [?N, ?S, ?H, ?E, ?W, ?P, ?S])"
    by blast
  then show ?thesis
  proof cases
    case s1
    have f: "trace (snd (snd ?b)) = trace w @ [?N, ?S]" "cancelled (snd (snd ?b)) = cancelled w"
      "fst ?b = Some False"
      using s1 by (simp_all add: defs)
    have e: "each_event (catalogue_poll ?c) before [?N, ?S]"
      using ns by (simp add: catalogue_poll_def)
    show ?thesis
      by (rule exI [of _ "[?N, ?S]"]) (simp only: f e polled_append, simp)
  next
    case s2
    have f: "trace (snd (snd ?b)) = trace w @ [?N, ?S, ?H]"
      "cancelled (snd (snd ?b)) = cancelled w" "fst ?b = Some False"
      using s2 by (simp_all add: defs)
    have e: "each_event (catalogue_poll ?c) before [?N, ?S, ?H]"
      using ns g by (simp add: catalogue_poll_def guarded_append butlast_append)
    show ?thesis
      by (rule exI [of _ "[?N, ?S, ?H]"]) (simp only: f e polled_append, simp)
  next
    case s3
    have f: "trace (snd (snd ?b)) = trace w @ [?N, ?S, ?H, ?E]"
      "cancelled (snd (snd ?b)) = cancelled w" "fst ?b = Some False"
      using s3 by (simp_all add: defs)
    have e: "each_event (catalogue_poll ?c) before [?N, ?S, ?H, ?E]"
      using ns g by (simp add: catalogue_poll_def guarded_append butlast_append)
    show ?thesis
      by (rule exI [of _ "[?N, ?S, ?H, ?E]"]) (simp only: f e polled_append, simp)
  next
    case n
    have f: "trace (snd (snd ?b)) = trace w @ [?N, ?S, ?H, ?E, ?W]"
      "cancelled (snd (snd ?b)) = cancelled w" "fst ?b = Some (?a = MT_NACK)"
      using n by (simp_all add: defs)
    have e: "each_event (catalogue_poll ?c) before [?N, ?S, ?H, ?E, ?W]"
      using ns g by (simp add: catalogue_poll_def guarded_append butlast_append)
    show ?thesis
      by (rule exI [of _ "[?N, ?S, ?H, ?E, ?W]"]) (simp only: f e polled_append, simp)
  next
    case c
    have f: "trace (snd (snd ?b)) = trace w @ [?N, ?S, ?H, ?E, ?W, ?P]"
      "cancelled (snd (snd ?b)) = cancelled w" "fst ?b = Some False"
      using c by (simp_all add: defs)
    have as: "after_select (before @ [?N, ?S, ?H, ?E, ?W])"
      using after_select_append [of "before @ [?N]" i] by (simp add: select_events_def)
    have e: "each_event (catalogue_poll ?c) before [?N, ?S, ?H, ?E, ?W, ?P]"
      using ns g as by (simp add: catalogue_poll_def guarded_append butlast_append)
    show ?thesis
      by (rule exI [of _ "[?N, ?S, ?H, ?E, ?W, ?P]"]) (simp only: f e polled_append, simp)
  next
    case i1
    have f: "trace (snd (snd ?b)) = trace w @ [?N, ?S, ?H, ?E, ?W, ?P, ?S]"
      "cancelled (snd (snd ?b)) = cancelled w" "fst ?b = None"
      using i1 by (simp_all add: defs)
    have as: "after_select (before @ [?N, ?S, ?H, ?E, ?W])"
      using after_select_append [of "before @ [?N]" i] by (simp add: select_events_def)
    have e: "each_event (catalogue_poll ?c) before [?N, ?S, ?H, ?E, ?W, ?P, ?S]"
      using ns g as i1(5) t by (simp add: catalogue_poll_def guarded_append butlast_append)
    have g': "\<not> guarded ?c (before @ [?N, ?S, ?H, ?E, ?W, ?P, ?S])"
      by (simp add: guarded_append)
    show ?thesis
      by (rule exI [of _ "[?N, ?S, ?H, ?E, ?W, ?P, ?S]"]) (simp only: f e g' polled_append, simp)
  next
    case i2
    have f: "trace (snd (snd ?b)) = trace w @ [?N, ?S, ?H, ?E, ?W, ?P, ?S, ?H']"
      "cancelled (snd (snd ?b)) = cancelled w" "fst ?b = None"
      using i2 by (simp_all add: defs)
    have as: "after_select (before @ [?N, ?S, ?H, ?E, ?W])"
      using after_select_append [of "before @ [?N]" i] by (simp add: select_events_def)
    have e: "each_event (catalogue_poll ?c) before [?N, ?S, ?H, ?E, ?W, ?P, ?S, ?H']"
      using ns g as i2(5) t by (simp add: catalogue_poll_def guarded_append butlast_append)
    have g': "\<not> guarded ?c (before @ [?N, ?S, ?H, ?E, ?W, ?P, ?S, ?H'])"
      by (simp add: guarded_append)
    show ?thesis
      by (rule exI [of _ "[?N, ?S, ?H, ?E, ?W, ?P, ?S, ?H']"])
         (simp only: f e g' polled_append, simp)
  next
    case i3
    have f: "trace (snd (snd ?b)) = trace w @ [?N, ?S, ?H, ?E, ?W, ?P, ?S, ?H', ?W]"
      "cancelled (snd (snd ?b)) = cancelled w" "fst ?b = None"
      using i3 by (simp_all add: defs)
    have as: "after_select (before @ [?N, ?S, ?H, ?E, ?W])"
      using after_select_append [of "before @ [?N]" i] by (simp add: select_events_def)
    have e: "each_event (catalogue_poll ?c) before [?N, ?S, ?H, ?E, ?W, ?P, ?S, ?H', ?W]"
      using ns g as i3(5) t by (simp add: catalogue_poll_def guarded_append butlast_append)
    have g': "\<not> guarded ?c (before @ [?N, ?S, ?H, ?E, ?W, ?P, ?S, ?H', ?W])"
      by (simp add: guarded_append)
    show ?thesis
      by (rule exI [of _ "[?N, ?S, ?H, ?E, ?W, ?P, ?S, ?H', ?W]"])
         (simp only: f e g' polled_append, simp)
  qed
qed

lemma ReadFlightList_loop_polls:
  assumes "trace w = t0 @ before"
    and "\<not> guarded (\<lambda>p. cancelled w (t0 @ p)) before"
    and "\<not> polled_set (\<lambda>p. cancelled w (t0 @ p)) before"
  shows "\<exists>evs. trace (snd (snd (ReadFlightList_loop pf capacity i fl w))) = trace w @ evs
     \<and> each_event (catalogue_poll (\<lambda>p. cancelled w (t0 @ p))) before evs
     \<and> (polled_set (\<lambda>p. cancelled w (t0 @ p)) (before @ evs)
          \<longrightarrow> \<not> fst (ReadFlightList_loop pf capacity i fl w))"
  using assms
proof (induction pf capacity i fl w arbitrary: before rule: ReadFlightList_loop.induct)
  case (1 pf capacity i fl w)
  let ?c = "\<lambda>p. cancelled w (t0 @ p)"
  show ?case
  proof (cases "capacity \<le> length fl")
    case True
    then have l: "ReadFlightList_loop pf capacity i fl w = (True, fl, w)"
      by (subst ReadFlightList_loop.simps) simp
    show ?thesis
      unfolding l using "1.prems"(3) by (intro exI [of _ "[]"]) simp
  next
    case False
    obtain r fl' w' where b: "ReadFlightList_body pf i fl w = (r, fl', w')"
      by (cases "ReadFlightList_body pf i fl w") auto
    from ReadFlightList_body_polls [OF "1.prems", of pf i fl] obtain evs where
      e: "trace w' = trace w @ evs" "cancelled w' = cancelled w"
        "each_event (catalogue_poll ?c) before evs"
        "r = None \<longrightarrow> \<not> guarded ?c (before @ evs) \<and> \<not> polled_set ?c (before @ evs)"
        "polled_set ?c (before @ evs) \<longrightarrow> r = Some False"
      unfolding b by auto
    show ?thesis
    proof (cases r)
      case (Some x)
      then have l: "ReadFlightList_loop pf capacity i fl w = (x, fl', w')"
        using b False by (subst ReadFlightList_loop.simps) simp
      show ?thesis
        unfolding l using e Some by (intro exI [of _ evs]) simp
    next
      case None
      then have l: "ReadFlightList_loop pf capacity i fl w
                  = ReadFlightList_loop pf capacity (i + 1) fl' w'"
        using b False by (subst ReadFlightList_loop.simps) simp
      have t': "trace w' = t0 @ (before @ evs)" using e(1) "1.prems"(1) by simp
      have g': "\<not> guarded (\<lambda>p. cancelled w' (t0 @ p)) (before @ evs)"
        "\<not> polled_set (\<lambda>p. cancelled w' (t0 @ p)) (before @ evs)"
        using e(2,4) None by simp_all
      from "1.IH" [OF False b [symmetric] None refl t' g'] obtain evs' where
        e': "trace (snd (snd (ReadFlightList_loop pf capacity (i + 1) fl' w'))) = trace w' @ evs'"
          "each_event (catalogue_poll ?c) (before @ evs) evs'"
          "polled_set ?c ((before @ evs) @ evs')
             \<longrightarrow> \<not> fst (ReadFlightList_loop pf capacity (i + 1) fl' w')"
        unfolding e(2) by blast
      show ?thesis
        unfolding l using e(1,3) e'
        by (intro exI [of _ "evs @ evs'"]) (simp add: each_event_append)
    qed
  qed
qed

lemma ReadFlightList_polls:
  "trace (snd (snd (ReadFlightList pf capacity fl w)))
     = trace w @ added w (snd (snd (ReadFlightList pf capacity fl w)))
   \<and> each_event (catalogue_poll (flag_during w)) []
        (added w (snd (snd (ReadFlightList pf capacity fl w))))
   \<and> (polled_set (flag_during w) (added w (snd (snd (ReadFlightList pf capacity fl w))))
        \<longrightarrow> \<not> fst (ReadFlightList pf capacity fl w))"
proof -
  let ?c = "\<lambda>p. cancelled w (trace w @ p)"
  let ?R = "EvSetProgressRange 10"
  let ?w = "SetProgressRange 10 w"
  have fd: "flag_during w = ?c" by (simp add: flag_during_def fun_eq_iff)
  have w': "trace ?w = trace w @ [?R]" "cancelled ?w = cancelled w"
    by (simp_all add: SetProgressRange_def)
  have g: "\<not> guarded (\<lambda>p. cancelled ?w (trace w @ p)) [?R]"
    "\<not> polled_set (\<lambda>p. cancelled ?w (trace w @ p)) [?R]"
    by (simp_all add: guarded_Cons)
  from ReadFlightList_loop_polls [OF w'(1) g, of pf capacity 0 fl] obtain evs where
    e: "trace (snd (snd (ReadFlightList_loop pf capacity 0 fl ?w))) = trace ?w @ evs"
      "each_event (catalogue_poll ?c) [?R] evs"
      "polled_set ?c ([?R] @ evs) \<longrightarrow> \<not> fst (ReadFlightList_loop pf capacity 0 fl ?w)"
    unfolding w'(2) by blast
  have t: "trace (snd (snd (ReadFlightList pf capacity fl w))) = trace w @ ?R # evs"
    using e(1) w'(1) by (simp add: ReadFlightList_def)
  have a: "added w (snd (snd (ReadFlightList pf capacity fl w))) = ?R # evs"
    using t by (rule added_append)
  show ?thesis
    unfolding a fd using t e(2,3) by (simp add: catalogue_poll_def ReadFlightList_def)
qed

lemma SelectFlight_begins:
  "\<exists>evs. trace (snd (SelectFlight i w)) = trace w @ EvSendStartByte # evs"
  by (simp add: SelectFlight_def SendStartByte_def SendFrameHeader_def SendEscaped_def
      WaitForACKOrNACK_def split_beta Let_def wait_fields)

lemma DownloadFlight_begins:
  "\<exists>evs. added w (snd (DownloadFlight flight path w)) = EvSendStartByte # evs"
proof -
  let ?i = "internal_flarm flight"
  let ?w1 = "snd (SelectFlight ?i w)"
  let ?w2 = "emit EvIsCancelled ?w1"
  from SelectFlight_begins [of ?i w] obtain evs1 where
    t1: "trace ?w1 = trace w @ EvSendStartByte # evs1" ..
  from DownloadFlight_path_polls [of path ?w2] obtain evs2 where
    t2: "trace (snd (DownloadFlight_path path ?w2)) = trace ?w2 @ evs2"
    by blast
  have "\<exists>evs. trace (snd (DownloadFlight flight path w)) = trace ?w1 @ evs"
    using t2 by (simp add: DownloadFlight_def split_beta Let_def IsCancelled_def File_Delete_def)
  then obtain evs where "trace (snd (DownloadFlight flight path w)) = trace ?w1 @ evs" ..
  then have "trace (snd (DownloadFlight flight path w)) = trace w @ EvSendStartByte # evs1 @ evs"
    using t1 by simp
  then have "added w (snd (DownloadFlight flight path w)) = EvSendStartByte # evs1 @ evs"
    by (rule added_append)
  then show ?thesis by blast
qed

text \<open>
  C4, amended. In every run, whatever the link, the device and the environment do:

  \<^verbatim>\<open>DownloadFlight(path, env)\<close> checks the flag before each request. It begins a
  request only after a poll that found the flag clear, with nothing but progress reports
  and the write of the previous chunk between that poll and the request; it waits for an
  answer only directly after another such poll; and after a poll that found the flag set
  it does nothing more and returns failure. The flag is polled, not watched: when it is
  set between the poll and the request, the poll that follows the request sees it, and
  the answer is not awaited.

  \<^verbatim>\<open>ReadFlightList\<close> does not check the flag before a SELECT request. In every
  round the SELECT request is begun unguarded; the flag is polled only directly after a
  complete SELECT exchange, and the GETRECORDINFO request is begun only directly after a
  poll that found the flag clear; after a poll that found the flag set the call does
  nothing more and returns failure. \<^verbatim>\<open>DownloadFlight\<close> for a recorded flight begins
  its SELECT request as the first thing it does.

  In particular, with the flag set from the start, \<^verbatim>\<open>DownloadFlight(path, env)\<close>
  fails and does nothing but construct the writer and poll, and \<^verbatim>\<open>ReadFlightList\<close>
  leaves the list as it is; all it does after setting the progress range is a part of one
  round, namely the progress position 0, the SELECT exchange for record 0 and the poll.
  Unless the list is full, that round is begun: the start byte of the SELECT exchange is
  sent with no poll before it.
\<close>

theorem cancellation_polls:
  "trace (snd (DownloadFlight_path path w)) = trace w @ added w (snd (DownloadFlight_path path w))
   \<and> each_event (download_poll (flag_during w)) [] (added w (snd (DownloadFlight_path path w)))
   \<and> (polled_set (flag_during w) (added w (snd (DownloadFlight_path path w)))
        \<longrightarrow> \<not> fst (DownloadFlight_path path w))
   \<and> trace (snd (snd (ReadFlightList pf capacity fl w)))
        = trace w @ added w (snd (snd (ReadFlightList pf capacity fl w)))
   \<and> each_event (catalogue_poll (flag_during w)) []
        (added w (snd (snd (ReadFlightList pf capacity fl w))))
   \<and> (polled_set (flag_during w) (added w (snd (snd (ReadFlightList pf capacity fl w))))
        \<longrightarrow> \<not> fst (ReadFlightList pf capacity fl w))
   \<and> (\<exists>evs. added w (snd (DownloadFlight flight path w)) = EvSendStartByte # evs)
   \<and> ((\<forall>tr. cancelled w tr) \<longrightarrow>
        \<not> fst (DownloadFlight_path path w)
      \<and> set (added w (snd (DownloadFlight_path path w))) \<subseteq> {EvBinaryWriter path, EvIsCancelled}
      \<and> fst (snd (ReadFlightList pf capacity fl w)) = fl
      \<and> (\<exists>n. (length fl < capacity \<longrightarrow> 2 \<le> n) \<and>
            added w (snd (snd (ReadFlightList pf capacity fl w))) =
            EvSetProgressRange 10 #
            take n (EvSetProgressPosition 0 # select_events 0 @ [EvIsCancelled])))"
proof -
  have download: "trace (snd (DownloadFlight_path path w))
      = trace w @ added w (snd (DownloadFlight_path path w))"
    "each_event (download_poll (flag_during w)) [] (added w (snd (DownloadFlight_path path w)))"
    "polled_set (flag_during w) (added w (snd (DownloadFlight_path path w)))
       \<longrightarrow> \<not> fst (DownloadFlight_path path w)"
    using DownloadFlight_path_polls [of path w] by simp_all
  have enumeration: "trace (snd (snd (ReadFlightList pf capacity fl w)))
      = trace w @ added w (snd (snd (ReadFlightList pf capacity fl w)))"
    "each_event (catalogue_poll (flag_during w)) []
       (added w (snd (snd (ReadFlightList pf capacity fl w))))"
    "polled_set (flag_during w) (added w (snd (snd (ReadFlightList pf capacity fl w))))
       \<longrightarrow> \<not> fst (ReadFlightList pf capacity fl w)"
    using ReadFlightList_polls [of pf capacity fl w] by simp_all
  have selecting: "\<exists>evs. added w (snd (DownloadFlight flight path w)) = EvSendStartByte # evs"
    by (rule DownloadFlight_begins)
  have from_start: "\<not> fst (DownloadFlight_path path w)
      \<and> set (added w (snd (DownloadFlight_path path w))) \<subseteq> {EvBinaryWriter path, EvIsCancelled}
      \<and> fst (snd (ReadFlightList pf capacity fl w)) = fl
      \<and> (\<exists>n. (length fl < capacity \<longrightarrow> 2 \<le> n) \<and>
            added w (snd (snd (ReadFlightList pf capacity fl w))) =
            EvSetProgressRange 10 #
            take n (EvSetProgressPosition 0 # select_events 0 @ [EvIsCancelled]))"
    if "\<forall>tr. cancelled w tr"
    using that by (rule flag_set_from_start)
  show ?thesis
    using download enumeration selecting from_start by (simp only: simp_thms) blast
qed

lemma stopped_download:
  "DownloadFlight_path ''flight.igc''
     (stopped_world [(MT_ACK, [0, 0, 50, 65, 66]), (MT_ACK, [0, 0, 100, 67, 0x1A])]) =
   (False, (stopped_world [(MT_ACK, [0, 0, 100, 67, 0x1A])])
      \<lparr>files := (\<lambda>_. None)(''flight.igc'' \<mapsto> [65, 66]),
       trace := [EvBinaryWriter ''flight.igc'', EvIsCancelled, EvSetProgressRange 100,
         EvSendStartByte, EvSendFrameHeader MT_GETIGCDATA 1000, EvIsCancelled,
         EvWaitForACKOrNACK 3000, EvIsCancelled, EvSetProgressPosition 50, EvWrite [65, 66],
         EvSendStartByte, EvSendFrameHeader MT_GETIGCDATA 1000, EvIsCancelled]\<rparr>)"
  by (simp add: stopped_world_def eval_world)

text \<open>
  Two runs. In the first the flag is set by the time the first chunk has been written:
  the second request is sent, the poll that follows it finds the flag set, and the
  download fails without waiting for the answer. In the second the flag is set from the
  start.
\<close>

theorem cancellation_polls_witness:
  "polled_set
     (flag_during (stopped_world [(MT_ACK, [0, 0, 50, 65, 66]), (MT_ACK, [0, 0, 100, 67, 0x1A])]))
     (added (stopped_world [(MT_ACK, [0, 0, 50, 65, 66]), (MT_ACK, [0, 0, 100, 67, 0x1A])])
        (snd (DownloadFlight_path ''flight.igc''
          (stopped_world [(MT_ACK, [0, 0, 50, 65, 66]), (MT_ACK, [0, 0, 100, 67, 0x1A])]))))
   \<and> \<not> fst (DownloadFlight_path ''flight.igc''
          (stopped_world [(MT_ACK, [0, 0, 50, 65, 66]), (MT_ACK, [0, 0, 100, 67, 0x1A])]))
   \<and> (\<forall>tr. cancelled (cancelled_world [(MT_ACK, [])]) tr)
   \<and> polled_set (flag_during (cancelled_world [(MT_ACK, [])]))
       (added (cancelled_world [(MT_ACK, [])])
          (snd (snd (ReadFlightList sample_platform 10 [] (cancelled_world [(MT_ACK, [])])))))
   \<and> \<not> fst (ReadFlightList sample_platform 10 [] (cancelled_world [(MT_ACK, [])]))
   \<and> fst (snd (ReadFlightList sample_platform 10 [] (cancelled_world [(MT_ACK, [])]))) = []"
proof -
  let ?w = "stopped_world [(MT_ACK, [0, 0, 50, 65, 66]), (MT_ACK, [0, 0, 100, 67, 0x1A])]"
  let ?v = "cancelled_world [(MT_ACK, [])]"
  have p: "polled_set (flag_during ?w) (added ?w (snd (DownloadFlight_path ''flight.igc'' ?w)))"
    unfolding stopped_download
    by (simp add: added_def flag_during_def stopped_world_def quiet_world_def)
  have c: "\<forall>tr. cancelled ?v tr"
    by (simp add: cancelled_world_def)
  have t: "trace (snd (snd (ReadFlightList sample_platform 10 [] ?v)))
       = [EvSetProgressRange 10, EvSetProgressPosition 0, EvSendStartByte,
          EvSendFrameHeader MT_SELECTRECORD 1000, EvSendEscaped [0] 1000,
          EvWaitForACKOrNACK 1000, EvIsCancelled]"
    by (simp add: cancelled_world_def eval_world ReadFlightList_def ReadFlightList_loop.simps
        ReadFlightList_body_def)
  have q: "polled_set (flag_during ?v)
      (added ?v (snd (snd (ReadFlightList sample_platform 10 [] ?v))))"
    unfolding added_def t
    by (simp add: flag_during_def cancelled_world_def quiet_world_def)
  show ?thesis
    using cancellation_polls [of "''flight.igc''" ?w sample_platform 10 "[]" "new_flight_info 0"]
      cancellation_polls [of "''flight.igc''" ?v sample_platform 10 "[]" "new_flight_info 0"]
      p c q
    by (simp only: simp_thms)
qed

text \<open>
  C4 as stated fails. With the flag set before \<^verbatim>\<open>ReadFlightList\<close> starts, the
  SELECT exchange for record 0 is sent and waited for before the flag is polled. In a
  download, with the flag set by the time the first chunk has been written, the second
  request is still sent before the flag is polled.
\<close>

theorem select_sent_when_cancelled:
  "cancelled (cancelled_world [(MT_ACK, [])]) []
   \<and> trace (snd (snd (ReadFlightList sample_platform 10 [] (cancelled_world [(MT_ACK, [])]))))
       = [EvSetProgressRange 10, EvSetProgressPosition 0, EvSendStartByte,
          EvSendFrameHeader MT_SELECTRECORD 1000, EvSendEscaped [0] 1000,
          EvWaitForACKOrNACK 1000, EvIsCancelled]
   \<and> fst (snd (ReadFlightList sample_platform 10 [] (cancelled_world [(MT_ACK, [])]))) = []
   \<and> cancelled (stopped_world [(MT_ACK, [0, 0, 50, 65, 66]), (MT_ACK, [0, 0, 100, 67, 0x1A])])
       [EvBinaryWriter ''flight.igc'', EvIsCancelled, EvSetProgressRange 100,
        EvSendStartByte, EvSendFrameHeader MT_GETIGCDATA 1000, EvIsCancelled,
        EvWaitForACKOrNACK 3000, EvIsCancelled, EvSetProgressPosition 50, EvWrite [65, 66]]
   \<and> trace (snd (DownloadFlight_path ''flight.igc''
        (stopped_world [(MT_ACK, [0, 0, 50, 65, 66]), (MT_ACK, [0, 0, 100, 67, 0x1A])])))
       = [EvBinaryWriter ''flight.igc'', EvIsCancelled, EvSetProgressRange 100,
          EvSendStartByte, EvSendFrameHeader MT_GETIGCDATA 1000, EvIsCancelled,
          EvWaitForACKOrNACK 3000, EvIsCancelled, EvSetProgressPosition 50, EvWrite [65, 66],
          EvSendStartByte, EvSendFrameHeader MT_GETIGCDATA 1000, EvIsCancelled]"
proof -
  have "cancelled (cancelled_world [(MT_ACK, [])]) []"
    by (simp add: cancelled_world_def)
  moreover have
    "trace (snd (snd (ReadFlightList sample_platform 10 [] (cancelled_world [(MT_ACK, [])]))))
       = [EvSetProgressRange 10, EvSetProgressPosition 0, EvSendStartByte,
          EvSendFrameHeader MT_SELECTRECORD 1000, EvSendEscaped [0] 1000,
          EvWaitForACKOrNACK 1000, EvIsCancelled]"
    "fst (snd (ReadFlightList sample_platform 10 [] (cancelled_world [(MT_ACK, [])]))) = []"
    by (simp_all add: cancelled_world_def eval_world ReadFlightList_def ReadFlightList_loop.simps
        ReadFlightList_body_def)
  moreover have
    "cancelled (stopped_world [(MT_ACK, [0, 0, 50, 65, 66]), (MT_ACK, [0, 0, 100, 67, 0x1A])])
       [EvBinaryWriter ''flight.igc'', EvIsCancelled, EvSetProgressRange 100,
        EvSendStartByte, EvSendFrameHeader MT_GETIGCDATA 1000, EvIsCancelled,
        EvWaitForACKOrNACK 3000, EvIsCancelled, EvSetProgressPosition 50, EvWrite [65, 66]]"
    by (simp add: stopped_world_def)
  ultimately show ?thesis
    unfolding stopped_download by simp
qed

section \<open>Downloading the chunks\<close>

lemma written_simps [simp]:
  "written [] = []"
  "written (xs @ ys) = written xs @ written ys"
  "written (EvWrite bs # evs) = bs @ written evs"
  "written (EvSendEscaped data t # evs) = written evs"
  "written (EvSendStartByte # evs) = written evs"
  "written (EvSendFrameHeader h t # evs) = written evs"
  "written (EvWaitForACKOrNACK t # evs) = written evs"
  "written (EvIsCancelled # evs) = written evs"
  "written (EvSetProgressRange n # evs) = written evs"
  "written (EvSetProgressPosition n # evs) = written evs"
  "written (EvBinaryWriter path # evs) = written evs"
  "written (EvDelete path # evs) = written evs"
  by (simp_all add: written_def)

lemma written_chunk_events [simp]: "written (chunk_events d) = chunk_data d"
  by (simp add: chunk_events_def)












end
